theory Spec2Isabelle
  imports Complex_Main "HOL-Library.Sublist" "HOL-Library.Log_Nat"
begin

section \<open>Python's floats\<close>

text \<open>
  A Python float is an IEEE 754 binary64 number. A finite double is modelled by the
  rational number it denotes, and every operation returns the double nearest to the
  exact result, a tie going to the even significand: \<open>round_double\<close> scales its
  argument so that the significand has 53 bits and rounds that to an integer. A
  decimal literal such as \<open>0.3\<close> is \<open>round_double (3 / 10)\<close>. The exponent is not
  bounded: infinities, NaN and the subnormal range are not part of the model. They are
  out of reach of the quantities computed here, which are quotients of 64-bit integer
  columns, differences of datetimes in seconds, capture times, and sums of a handful
  of weights.
\<close>

type_synonym double = rat

definition rne :: "rat \<Rightarrow> int" where
  "rne z =
     (let f = \<lfloor>z\<rfloor>; d = z - of_int f
      in if d < 1 / 2 then f else if 1 / 2 < d then f + 1
         else if even f then f else f + 1)"

text \<open>The binary exponent of a positive rational: \<open>2 powi ilog2 q \<le> q < 2 powi (ilog2 q + 1)\<close>.\<close>

definition ilog2 :: "rat \<Rightarrow> int" where
  "ilog2 q = (if 1 \<le> q then bitlen \<lfloor>q\<rfloor> - 1 else - bitlen (\<lceil>1 / q\<rceil> - 1))"

definition round_double :: "rat \<Rightarrow> double" where
  "round_double x =
     (if x = 0 then 0
      else let e = ilog2 \<bar>x\<bar> - 52 in of_int (rne (x / 2 powi e)) * 2 powi e)"

definition fadd :: "double \<Rightarrow> double \<Rightarrow> double" where
  "fadd a b = round_double (a + b)"

definition fmul :: "double \<Rightarrow> double \<Rightarrow> double" where
  "fmul a b = round_double (a * b)"

definition fdiv :: "double \<Rightarrow> double \<Rightarrow> double" where
  "fdiv a b = round_double (a / b)"

text \<open>
  True division \<open>a / b\<close> of two Python integers, which is correctly rounded. Every
  call below has a divisor that is not zero.
\<close>

definition true_div :: "int \<Rightarrow> int \<Rightarrow> double" where
  "true_div a b = round_double (of_int a / of_int b)"

section \<open>Data model (src/backend/src/db/models.py)\<close>

text \<open>
  Python byte strings and text are both modelled as \<open>string\<close>, a list of 8-bit
  characters; for text these are the code points below 256. A naive \<open>datetime\<close> is the
  number of microseconds from 1970-01-01 00:00:00 to it on its own calendar, a
  \<open>timedelta\<close> a number of microseconds; \<open>total_seconds\<close> divides that integer by
  \<open>10**6\<close>. Columns are taken to hold values of their declared type.
\<close>

type_synonym bytes = string
type_synonym datetime = int

definition total_seconds :: "int \<Rightarrow> double" where
  "total_seconds d = true_div d 1000000"

datatype error =
    ValueError string
  | ZeroDivisionError
  | TypeError
  | IntegrityError

record flow =
  fid :: int
  src_ip :: string
  src_port :: int
  dst_ip :: string
  dst_port :: int
  protocol :: string
  ts_start :: datetime
  ts_end :: "datetime option"
  pkt_count :: int
  byte_count :: int
  payload_sample :: "string option"
  possible_tor_handshake :: bool
  relay_comm :: bool
  directory_fetch :: bool
  obfsproxy_candidate :: bool
  confidence_score :: rat
  confidence_category :: "string option"

record tor_node =
  nid :: int
  ip_address :: string
  port :: int
  fingerprint :: "string option"
  nickname :: "string option"
  flags :: "string list option"
  country_code :: "string option"
  asn :: "string option"
  bandwidth :: "int option"

datatype ev_value = EvNum rat | EvStr string | EvBool bool

record correlation =
  cid :: int
  flow_id :: int
  correlated_flow_id :: int
  correlation_weight :: rat
  correlation_type :: string
  evidence :: "(string \<times> ev_value) list"

text \<open>
  The database: one list of rows per table, in insertion order, and the number of
  sessions handed out by \<open>DatabaseManager.get_session\<close> that are not closed yet.
\<close>

record store =
  tbl_flows :: "flow list"
  tbl_tor_nodes :: "tor_node list"
  tbl_correlations :: "correlation list"
  open_sessions :: nat

definition get_session :: "store \<Rightarrow> store" where
  "get_session st = st\<lparr>open_sessions := Suc (open_sessions st)\<rparr>"

definition session_close :: "store \<Rightarrow> store" where
  "session_close st = st\<lparr>open_sessions := open_sessions st - 1\<rparr>"

text \<open>An integer primary key: the next key is one more than the largest key in use.\<close>

definition next_id :: "int list \<Rightarrow> int" where
  "next_id ids = fold max ids 0 + 1"

text \<open>\<open>session.query(T).filter_by(...).first()\<close>: the first matching row, if any.\<close>

definition query_first :: "('a \<Rightarrow> bool) \<Rightarrow> 'a list \<Rightarrow> 'a option" where
  "query_first p rows = find p rows"

text \<open>Truthiness of an optional Python sequence: \<open>None\<close> and the empty sequence are false.\<close>

fun truthy :: "'a list option \<Rightarrow> bool" where
  "truthy None = False"
| "truthy (Some xs) = (xs \<noteq> [])"

section \<open>Confidence scoring (src/src/scorer/confidence.py)\<close>

text \<open>
  Three of the four components add products of an integer weight with a one-digit
  decimal, such as \<open>40 * 0.5\<close>. Each of these products is an integer in double
  arithmetic as well (lemma \<open>scorer_products_exact\<close>), and doubles add small integers
  without error, so these components are written with exact arithmetic. The timing
  component averages stored weights, which are arbitrary doubles: there, and in the
  total, every operation is rounded.
\<close>

record ScoreComponents =
  tor_node_match :: rat
  timing_correlation :: rat
  payload_similarity :: rat
  unusual_patterns :: rat
  total :: rat

definition WEIGHTS_tor_node_match :: rat where "WEIGHTS_tor_node_match = 40"
definition WEIGHTS_timing_correlation :: rat where "WEIGHTS_timing_correlation = 30"
definition WEIGHTS_payload_similarity :: rat where "WEIGHTS_payload_similarity = 20"
definition WEIGHTS_unusual_patterns :: rat where "WEIGHTS_unusual_patterns = 10"

definition CATEGORIES :: "(string \<times> rat \<times> rat) list" where
  "CATEGORIES = [(''Low'', 0, 30), (''Medium'', 30, 60), (''High'', 60, 85),
                 (''Critical'', 85, 100)]"

definition has_flag :: "string \<Rightarrow> string list option \<Rightarrow> bool" where
  "has_flag fl fs = (case fs of None \<Rightarrow> False | Some xs \<Rightarrow> fl \<in> set xs)"

definition score_tor_node_match :: "store \<Rightarrow> flow \<Rightarrow> rat" where
  "score_tor_node_match st f =
     (let max_score = WEIGHTS_tor_node_match;
          tor_node = query_first (\<lambda>n. ip_address n = dst_ip f) (tbl_tor_nodes st);
          score0 = (case tor_node of
                      None \<Rightarrow> 0
                    | Some n \<Rightarrow>
                        max_score * (5 / 10)
                        + (if truthy (flags n) then
                             (if has_flag ''Guard'' (flags n) then max_score * (2 / 10) else 0)
                             + (if has_flag ''Exit'' (flags n) then max_score * (2 / 10) else 0)
                             + (if has_flag ''Fast'' (flags n) then max_score * (1 / 10) else 0)
                           else 0));
          score1 = score0 + (if relay_comm f then max_score * (3 / 10) else 0);
          score2 = score1 + (if directory_fetch f then max_score * (2 / 10) else 0);
          score3 = score2 + (if possible_tor_handshake f then max_score * (3 / 10) else 0);
          score4 = score3 + (if obfsproxy_candidate f then max_score * (4 / 10) else 0)
      in min score4 max_score)"

definition flow_correlations :: "store \<Rightarrow> int \<Rightarrow> correlation list" where
  "flow_correlations st i =
     filter (\<lambda>c. flow_id c = i \<or> correlated_flow_id c = i) (tbl_correlations st)"

text \<open>
  \<open>sum\<close> adds the weights from left to right, starting from the integer 0 (CPython
  from 3.12 on carries a compensation term along, which is not modelled).
\<close>

definition score_timing_correlation :: "store \<Rightarrow> flow \<Rightarrow> double" where
  "score_timing_correlation st f =
     (let max_score = WEIGHTS_timing_correlation;
          correlations = flow_correlations st (fid f)
      in if correlations = [] then 0
         else
           let total_weight = foldl fadd 0 (map correlation_weight correlations);
               correlation_count = int (length correlations);
               count_score = (if correlation_count \<ge> 5 then max_score * (5 / 10)
                              else if correlation_count \<ge> 3 then max_score * (3 / 10)
                              else if correlation_count \<ge> 1 then max_score * (2 / 10)
                              else 0);
               avg_weight = (if correlation_count > 0
                             then fdiv total_weight (of_int correlation_count) else 0);
               weight_score = fmul (fmul avg_weight max_score) (round_double (5 / 10))
           in min (fadd count_score weight_score) max_score)"

definition score_payload_patterns :: "flow \<Rightarrow> rat" where
  "score_payload_patterns f =
     (let max_score = WEIGHTS_payload_similarity
      in if \<not> truthy (payload_sample f) then 0
         else
           let score1 = (if possible_tor_handshake f then max_score * (6 / 10) else 0);
               score2 = score1 + (if obfsproxy_candidate f then max_score * (8 / 10) else 0);
               score3 = score2 + (if byte_count f > 10000 then max_score * (2 / 10) else 0)
           in min score3 max_score)"

definition score_unusual_patterns :: "flow \<Rightarrow> rat" where
  "score_unusual_patterns f =
     (let max_score = WEIGHTS_unusual_patterns;
          score1 = (if dst_port f \<in> {9001, 9030, 9050, 9051, 9150}
                    then max_score * (5 / 10) else 0);
          score2 = score1 + (if pkt_count f > 100 then max_score * (3 / 10) else 0);
          score3 = score2 +
            (case ts_end f of
               None \<Rightarrow> 0
             | Some te \<Rightarrow>
                 (if total_seconds (te - ts_start f) > 60 then max_score * (2 / 10) else 0))
      in min score3 max_score)"

definition calculate_score :: "store \<Rightarrow> flow \<Rightarrow> ScoreComponents" where
  "calculate_score st f =
     (let a = score_tor_node_match st f;
          b = score_timing_correlation st f;
          c = score_payload_patterns f;
          d = score_unusual_patterns f
      in \<lparr>tor_node_match = a, timing_correlation = b, payload_similarity = c,
          unusual_patterns = d, total = max 0 (min 100 (fadd (fadd (fadd a b) c) d))\<rparr>)"

fun category_scan :: "(string \<times> rat \<times> rat) list \<Rightarrow> rat \<Rightarrow> string" where
  "category_scan [] score = ''Critical''"
| "category_scan ((category, min_score, max_score) # rest) score =
     (if min_score \<le> score \<and> score < max_score then category
      else category_scan rest score)"

definition get_category :: "rat \<Rightarrow> string" where
  "get_category score = category_scan CATEGORIES score"

text \<open>
  \<open>score_all_flows\<close>: every flow row gets its total and its category; the pass
  commits once at the end and closes its session.
\<close>

definition score_row :: "store \<Rightarrow> flow \<Rightarrow> flow" where
  "score_row st f =
     (let score_components = calculate_score st f
      in f\<lparr>confidence_score := total score_components,
            confidence_category := Some (get_category (total score_components))\<rparr>)"

definition score_all_flows :: "store \<Rightarrow> store \<times> int" where
  "score_all_flows st0 =
     (let st = get_session st0;
          rows = map (score_row st) (tbl_flows st)
      in (session_close (st\<lparr>tbl_flows := rows\<rparr>), int (length rows)))"

text \<open>Decimal rendering of an integer, as an f-string prints it.\<close>

fun digit_chars :: "nat \<Rightarrow> string" where
  "digit_chars n =
     (if n < 10 then [char_of (48 + n)]
      else digit_chars (n div 10) @ [char_of (48 + n mod 10)])"

declare digit_chars.simps [simp del]

definition str_int :: "int \<Rightarrow> string" where
  "str_int i = (if i < 0 then CHR ''-'' # digit_chars (nat (- i)) else digit_chars (nat i))"

text \<open>
  \<open>score_flow\<close>: the session is opened, the flow is looked up by primary key, and the
  \<open>finally\<close> clause closes the session on both exits. Nothing is committed.
\<close>

definition score_flow :: "store \<Rightarrow> int \<Rightarrow> store \<times> (error + rat \<times> ScoreComponents)" where
  "score_flow st0 flow_id' =
     (let st = get_session st0
      in case query_first (\<lambda>f. fid f = flow_id') (tbl_flows st) of
           None \<Rightarrow>
             (session_close st, Inl (ValueError (''Flow '' @ str_int flow_id' @ '' not found'')))
         | Some f \<Rightarrow>
             (let score_components = calculate_score st f
              in (session_close st, Inr (total score_components, score_components))))"

section \<open>Base64 (Python's \<open>base64.b64encode\<close> and \<open>base64.b64decode\<close>)\<close>

text \<open>
  The payload sample is stored as Base64 text. The two library functions are modelled
  here: the encoder of RFC 4648 with padding, and the lenient decoder of the standard
  library, which skips characters outside the alphabet, stops at a complete run of
  padding and fails (\<open>None\<close>) when the data characters do not fill a group or when a
  character is not ASCII.
\<close>

definition b64_alphabet :: string where
  "b64_alphabet = ''ABCDEFGHIJKLMNOPQRSTUVWXYZabcdefghijklmnopqrstuvwxyz0123456789+/''"

definition b64_char :: "nat \<Rightarrow> char" where
  "b64_char i = b64_alphabet ! (i mod 64)"

fun index_of :: "'a \<Rightarrow> 'a list \<Rightarrow> nat option" where
  "index_of x [] = None"
| "index_of x (y # ys) = (if x = y then Some 0 else map_option Suc (index_of x ys))"

definition b64_index :: "char \<Rightarrow> nat option" where
  "b64_index c = index_of c b64_alphabet"

definition byte_of :: "char \<Rightarrow> nat" where
  "byte_of c = of_char c"

definition chr_byte :: "nat \<Rightarrow> char" where
  "chr_byte n = char_of n"

fun b64encode :: "bytes \<Rightarrow> string" where
  "b64encode [] = []"
| "b64encode [a] =
     (let x = byte_of a
      in [b64_char (x div 4), b64_char ((x mod 4) * 16), CHR ''='', CHR ''=''])"
| "b64encode [a, b] =
     (let x = byte_of a; y = byte_of b
      in [b64_char (x div 4), b64_char ((x mod 4) * 16 + y div 16),
          b64_char ((y mod 16) * 4), CHR ''=''])"
| "b64encode (a # b # c # rest) =
     (let x = byte_of a; y = byte_of b; z = byte_of c
      in [b64_char (x div 4), b64_char ((x mod 4) * 16 + y div 16),
          b64_char ((y mod 16) * 4 + z div 64), b64_char (z mod 64)] @ b64encode rest)"

text \<open>
  The decoder's loop: \<open>quad_pos\<close> is the position inside the current group of four,
  \<open>leftchar\<close> the bits carried over, \<open>pads\<close> the padding characters seen since the last
  data character, \<open>out\<close> the bytes produced so far.
\<close>

fun a2b_base64 :: "string \<Rightarrow> nat \<Rightarrow> nat \<Rightarrow> nat \<Rightarrow> bytes \<Rightarrow> bytes option" where
  "a2b_base64 [] quad_pos leftchar pads out = (if quad_pos \<noteq> 0 then None else Some out)"
| "a2b_base64 (ch # rest) quad_pos leftchar pads out =
     (if ch = CHR ''='' then
        (if quad_pos \<ge> 2 \<and> quad_pos + Suc pads \<ge> 4 then Some out
         else a2b_base64 rest quad_pos leftchar
                (if quad_pos \<ge> 2 then Suc pads else pads) out)
      else
        (case b64_index ch of
           None \<Rightarrow> a2b_base64 rest quad_pos leftchar pads out
         | Some v \<Rightarrow>
             (if quad_pos = 0 then a2b_base64 rest 1 v 0 out
              else if quad_pos = 1 then
                a2b_base64 rest 2 (v mod 16) 0 (out @ [chr_byte (leftchar * 4 + v div 16)])
              else if quad_pos = 2 then
                a2b_base64 rest 3 (v mod 4) 0 (out @ [chr_byte (leftchar * 16 + v div 4)])
              else
                a2b_base64 rest 0 0 0 (out @ [chr_byte (leftchar * 64 + v)]))))"

definition b64decode :: "string \<Rightarrow> bytes option" where
  "b64decode s =
     (if list_ex (\<lambda>c. byte_of c \<ge> 128) s then None else a2b_base64 s 0 0 0 [])"

section \<open>Classification (src/backend/src/parser/tor_extractor.py)\<close>

definition TOR_PORTS :: "int set" where
  "TOR_PORTS = {9001, 9030, 9050, 9051, 9150}"

definition TLS_CLIENT_HELLO :: bytes where
  "TLS_CLIENT_HELLO = [chr_byte 0x16, chr_byte 0x03]"

definition TOR_HANDSHAKE_PATTERNS :: "bytes list" where
  "TOR_HANDSHAKE_PATTERNS =
     [ [chr_byte 0x00, chr_byte 0x00, chr_byte 0x00], [chr_byte 0x03, chr_byte 0x00]]"

text \<open>Python's \<open>pattern in payload\<close> on byte strings: a contiguous occurrence.\<close>

fun bytes_in :: "bytes \<Rightarrow> bytes \<Rightarrow> bool" where
  "bytes_in pat [] = (pat = [])"
| "bytes_in pat (x # xs) = (prefix pat (x # xs) \<or> bytes_in pat xs)"

definition common_markers :: "bytes list" where
  "common_markers = [''HTTP/'', ''GET '', ''POST '', ''SSH-'', ''220 '', ''CONNECT'']"

definition check_obfsproxy_patterns :: "bytes \<Rightarrow> bool" where
  "check_obfsproxy_patterns payload =
     (if length payload < 20 then False
      else
        let has_marker = list_ex (\<lambda>marker. bytes_in marker (take 100 payload)) common_markers
        in if \<not> has_marker \<and> length payload > 100 then
             (let unique_bytes = card (set (take 100 payload))
              in if unique_bytes > 50 then True else False)
           else False)"

record TorExtractor =
  tor_node_ips :: "string set"

text \<open>
  \<open>_analyze_flow\<close> returns the annotated flow and \<open>is_tor\<close>. A payload sample that
  does not decode raises inside the \<open>try\<close> block before any flag is touched, and the
  handler only logs.
\<close>

definition analyze_flow :: "TorExtractor \<Rightarrow> flow \<Rightarrow> flow \<times> bool" where
  "analyze_flow ex f0 =
     (let (f1, t1) = (if dst_ip f0 \<in> tor_node_ips ex
                      then (f0\<lparr>relay_comm := True\<rparr>, True) else (f0, False));
          (f2, t2) = (if dst_port f1 \<in> TOR_PORTS
                      then (f1\<lparr>relay_comm := True\<rparr>, True) else (f1, t1));
          (f3, t3) = (if dst_port f2 = 9030
                      then (f2\<lparr>directory_fetch := True\<rparr>, True) else (f2, t2))
      in case payload_sample f3 of
           None \<Rightarrow> (f3, t3)
         | Some text \<Rightarrow>
             (if text = [] then (f3, t3)
              else
                (case b64decode text of
                   None \<Rightarrow> (f3, t3)
                 | Some payload \<Rightarrow>
                     (let (f4, t4) =
                            (if prefix TLS_CLIENT_HELLO payload
                                \<and> list_ex (\<lambda>pattern. bytes_in pattern payload)
                                     TOR_HANDSHAKE_PATTERNS
                             then (f3\<lparr>possible_tor_handshake := True\<rparr>, True) else (f3, t3))
                      in if check_obfsproxy_patterns payload
                         then (f4\<lparr>obfsproxy_candidate := True\<rparr>, True) else (f4, t4)))))"

text \<open>
  A directory snapshot entry: the address is required, every other key may be absent
  (\<open>None\<close>), in which case \<open>dict.get\<close> supplies its default.
\<close>

record node_data =
  nd_ip_address :: string
  nd_port :: "int option"
  nd_fingerprint :: "string option"
  nd_nickname :: "string option"
  nd_flags :: "string list option"
  nd_country_code :: "string option"
  nd_asn :: "string option"
  nd_bandwidth :: "int option"

definition new_tor_node :: "int \<Rightarrow> node_data \<Rightarrow> tor_node" where
  "new_tor_node i nd =
     \<lparr>nid = i,
      ip_address = nd_ip_address nd,
      port = (case nd_port nd of None \<Rightarrow> 9001 | Some p \<Rightarrow> p),
      fingerprint = nd_fingerprint nd,
      nickname = nd_nickname nd,
      flags = Some (case nd_flags nd of None \<Rightarrow> [] | Some fs \<Rightarrow> fs),
      country_code = nd_country_code nd,
      asn = nd_asn nd,
      bandwidth = nd_bandwidth nd\<rparr>"

text \<open>
  The column \<open>fingerprint\<close> is unique: inserting a second row with the same non-null
  fingerprint fails, the transaction is rolled back and the error is raised again. The
  address cache of the extractor is not part of the transaction.
\<close>

definition fingerprint_clash :: "tor_node list \<Rightarrow> node_data \<Rightarrow> bool" where
  "fingerprint_clash rows nd =
     (case nd_fingerprint nd of
        None \<Rightarrow> False
      | Some fp \<Rightarrow> list_ex (\<lambda>n. fingerprint n = Some fp) rows)"

fun load_loop ::
  "tor_node list \<Rightarrow> string set \<Rightarrow> node_data list \<Rightarrow> (tor_node list \<times> string set) \<times> error option"
where
  "load_loop rows ips [] = ((rows, ips), None)"
| "load_loop rows ips (nd # rest) =
     (case query_first (\<lambda>n. ip_address n = nd_ip_address nd) rows of
        Some existing \<Rightarrow> load_loop rows ips rest
      | None \<Rightarrow>
          (if fingerprint_clash rows nd
           then ((rows, insert (nd_ip_address nd) ips), Some IntegrityError)
           else load_loop (rows @ [new_tor_node (next_id (map nid rows)) nd])
                          (insert (nd_ip_address nd) ips) rest))"

definition load_tor_nodes ::
  "store \<Rightarrow> TorExtractor \<Rightarrow> node_data list \<Rightarrow> (store \<times> TorExtractor) \<times> error option"
where
  "load_tor_nodes st0 ex tor_nodes =
     (let st = get_session st0
      in case load_loop (tbl_tor_nodes st) (tor_node_ips ex) tor_nodes of
           ((rows, ips), None) \<Rightarrow>
             ((session_close (st\<lparr>tbl_tor_nodes := rows\<rparr>), ex\<lparr>tor_node_ips := ips\<rparr>), None)
         | ((rows, ips), Some e) \<Rightarrow>
             ((session_close st, ex\<lparr>tor_node_ips := ips\<rparr>), Some e))"

section \<open>Correlation (src/backend/src/correlator/correlation_engine.py)\<close>

subsection \<open>Python's \<open>str.split\<close> and \<open>int\<close> on text\<close>

fun split_on :: "char \<Rightarrow> string \<Rightarrow> string list" where
  "split_on sep [] = [ [] ]"
| "split_on sep (x # xs) =
     (if x = sep then [] # split_on sep xs
      else (case split_on sep xs of
              [] \<Rightarrow> [ [x] ]
            | p # ps \<Rightarrow> (x # p) # ps))"

text \<open>
  \<open>int(s)\<close> on text, as CPython 3.11 does it. Before parsing, the two blank characters
  above the ASCII range, U+0085 and U+00A0, are turned into spaces; the parser then
  skips tabs, line feeds, vertical tabs, form feeds, carriage returns and spaces, reads
  one optional sign, and scans the longest run of digits and underscores.
\<close>

definition is_space :: "char \<Rightarrow> bool" where
  "is_space c = (byte_of c \<in> {9, 10, 11, 12, 13, 32, 133, 160})"

definition is_digit :: "char \<Rightarrow> bool" where
  "is_digit c = (48 \<le> byte_of c \<and> byte_of c \<le> 57)"

text \<open>
  Underscores in the run: none at the start, none at the end, no two in a row.
\<close>

definition underscores_ok :: "string \<Rightarrow> bool" where
  "underscores_ok run =
     (case run of
        [] \<Rightarrow> True
      | c # rest \<Rightarrow> c \<noteq> CHR ''_'' \<and> last run \<noteq> CHR ''_'' \<and> \<not> bytes_in ''__'' run)"

definition decimal_value :: "string \<Rightarrow> int" where
  "decimal_value s =
     fold (\<lambda>c n. 10 * n + (int (byte_of c) - 48)) (filter is_digit s) 0"

text \<open>
  \<open>repr\<close> of text, which the error message of \<open>int\<close> quotes: double quotes when the
  text has a single quote and no double quote, single quotes otherwise; backslash, the
  quote, tab, newline and carriage return are escaped, and every other character that
  is not printable is written as a backslash, the letter x and two hexadecimal digits.
\<close>

definition hex_digit :: "nat \<Rightarrow> char" where
  "hex_digit n = ''0123456789abcdef'' ! n"

definition printable :: "char \<Rightarrow> bool" where
  "printable c =
     ((32 \<le> byte_of c \<and> byte_of c < 127) \<or> (161 \<le> byte_of c \<and> byte_of c \<noteq> 173))"

definition repr_char :: "char \<Rightarrow> char \<Rightarrow> string" where
  "repr_char quote c =
     (if c = quote \<or> c = CHR 0x5C then [CHR 0x5C, c]
      else if c = CHR 0x09 then [CHR 0x5C, CHR ''t'']
      else if c = CHR 0x0A then [CHR 0x5C, CHR ''n'']
      else if c = CHR 0x0D then [CHR 0x5C, CHR ''r'']
      else if printable c then [c]
      else [CHR 0x5C, CHR ''x'', hex_digit (byte_of c div 16), hex_digit (byte_of c mod 16)])"

definition repr :: "string \<Rightarrow> string" where
  "repr s =
     (let quote = (if CHR 0x27 \<in> set s \<and> CHR 0x22 \<notin> set s then CHR 0x22 else CHR 0x27)
      in quote # concat (map (repr_char quote) s) @ [quote])"

text \<open>
  The two errors of \<open>int\<close>. The message of the first shows at most 200 characters of
  the \<open>repr\<close> of the argument. The second is raised for a run of more than 4300 digits,
  before anything that follows the run is looked at.
\<close>

definition invalid_literal :: "string \<Rightarrow> error" where
  "invalid_literal s =
     ValueError (''invalid literal for int() with base 10: '' @ take 200 (repr s))"

definition exceeds_limit :: "nat \<Rightarrow> error" where
  "exceeds_limit digits =
     ValueError (''Exceeds the limit (4300 digits) for integer string conversion: value has ''
                 @ str_int (int digits)
                 @ '' digits; use sys.set_int_max_str_digits() to increase the limit'')"

definition py_int :: "string \<Rightarrow> error + int" where
  "py_int s =
     (let t = dropWhile is_space s;
          (negative, body) =
            (case t of
               [] \<Rightarrow> (False, t)
             | c # rest \<Rightarrow>
                 if c = CHR ''-'' then (True, rest)
                 else if c = CHR ''+'' then (False, rest)
                 else (False, t));
          run = takeWhile (\<lambda>c. is_digit c \<or> c = CHR ''_'') body;
          after = dropWhile is_space (dropWhile (\<lambda>c. is_digit c \<or> c = CHR ''_'') body);
          digits = length (filter is_digit run)
      in if \<not> underscores_ok run then Inl (invalid_literal s)
         else if digits > 4300 then Inl (exceeds_limit digits)
         else if run = [] \<or> after \<noteq> [] then Inl (invalid_literal s)
         else Inr (if negative then - decimal_value run else decimal_value run))"

subsection \<open>The private-address check\<close>

definition is_internal_ip :: "string \<Rightarrow> string set option \<Rightarrow> error + bool" where
  "is_internal_ip ip known_internal =
     (if (case known_internal of None \<Rightarrow> False | Some known \<Rightarrow> known \<noteq> {} \<and> ip \<in> known)
      then Inr True
      else if prefix ''10.'' ip then Inr True
      else if prefix ''192.168.'' ip then Inr True
      else if prefix ''172.'' ip then
        (let parts = split_on CHR ''.'' ip
         in if length parts \<ge> 2 then
              (case py_int (parts ! 1) of
                 Inl e \<Rightarrow> Inl e
               | Inr second_octet \<Rightarrow>
                   if 16 \<le> second_octet \<and> second_octet \<le> 31 then Inr True else Inr False)
            else Inr False)
      else Inr False)"

text \<open>
  \<open>_get_internal_ips\<close> runs the check, without a known set, over the distinct source
  addresses of every flow row.
\<close>

fun collect_internal :: "string list \<Rightarrow> string set \<Rightarrow> error + string set" where
  "collect_internal [] internal_ips = Inr internal_ips"
| "collect_internal (src # rest) internal_ips =
     (case is_internal_ip src None of
        Inl e \<Rightarrow> Inl e
      | Inr b \<Rightarrow> collect_internal rest (if b then insert src internal_ips else internal_ips))"

definition get_internal_ips :: "store \<Rightarrow> error + string set" where
  "get_internal_ips st = collect_internal (remdups (map src_ip (tbl_flows st))) {}"

subsection \<open>The weight of a pair\<close>

definition check_entry_exit_pattern :: "store \<Rightarrow> flow \<Rightarrow> flow \<Rightarrow> error + bool" where
  "check_entry_exit_pattern st flow1 flow2 =
     (let tor_node1 = query_first (\<lambda>n. ip_address n = dst_ip flow1) (tbl_tor_nodes st);
          tor_node2 = query_first (\<lambda>n. ip_address n = dst_ip flow2) (tbl_tor_nodes st)
      in case tor_node1 of
           None \<Rightarrow> Inr False
         | Some n1 \<Rightarrow>
             (if truthy (flags n1) \<and> has_flag ''Guard'' (flags n1) then
                (case tor_node2 of
                   None \<Rightarrow> Inr True
                 | Some n2 \<Rightarrow>
                     (case flags n2 of
                        None \<Rightarrow> Inl TypeError
                      | Some fs \<Rightarrow> Inr (''Exit'' \<in> set fs)))
              else Inr (tor_node2 = None)))"

text \<open>
  The timing tier, a float literal, and the distance in seconds between the starts of
  two flows.
\<close>

definition timing_score_of :: "double \<Rightarrow> double" where
  "timing_score_of time_diff =
     (if time_diff < 1 then round_double (4 / 10)
      else if time_diff < 5 then round_double (3 / 10)
      else if time_diff < 10 then round_double (2 / 10)
      else round_double (1 / 10))"

definition time_diff_of :: "flow \<Rightarrow> flow \<Rightarrow> double" where
  "time_diff_of flow1 flow2 = \<bar>total_seconds (ts_start flow2 - ts_start flow1)\<bar>"

text \<open>
  \<open>_calculate_correlation\<close>. The weight starts at \<open>0.0\<close> and each \<open>+=\<close> is one rounded
  addition, in the order of the source. Dividing by a largest mean size of zero raises
  \<open>ZeroDivisionError\<close>.
\<close>

definition calculate_correlation ::
  "store \<Rightarrow> flow \<Rightarrow> flow \<Rightarrow> error + double \<times> (string \<times> ev_value) list"
where
  "calculate_correlation st flow1 flow2 =
     (let time_diff = time_diff_of flow1 flow2;
          timing_score = timing_score_of time_diff;
          weight1 = fadd 0 timing_score;
          evidence1 = [(''timing_diff_seconds'', EvNum time_diff),
                       (''timing_score'', EvNum timing_score)]
      in case check_entry_exit_pattern st flow1 flow2 of
           Inl e \<Rightarrow> Inl e
         | Inr is_entry_exit \<Rightarrow>
             (let weight2 = (if is_entry_exit then fadd weight1 (round_double (3 / 10))
                             else weight1);
                  evidence2 = (if is_entry_exit
                               then evidence1 @ [(''type'', EvStr ''entry_exit''),
                                                 (''entry_exit_pattern'', EvBool True)]
                               else evidence1);
                  same = (src_ip flow1 = src_ip flow2)
              in if pkt_count flow1 > 0 \<and> pkt_count flow2 > 0 then
                   (let avg_size1 = true_div (byte_count flow1) (pkt_count flow1);
                        avg_size2 = true_div (byte_count flow2) (pkt_count flow2)
                    in if max avg_size1 avg_size2 = 0 then Inl ZeroDivisionError
                       else
                         (let size_ratio = fdiv (min avg_size1 avg_size2)
                                             (max avg_size1 avg_size2);
                              size_score = fmul size_ratio (round_double (2 / 10));
                              weight3 = fadd weight2 size_score;
                              evidence3 = evidence2 @ [(''size_similarity'', EvNum size_score)]
                          in if same
                             then Inr (fadd weight3 (round_double (1 / 10)),
                                       evidence3 @ [(''same_source'', EvBool True)])
                             else Inr (weight3, evidence3)))
                 else
                   (if same
                    then Inr (fadd weight2 (round_double (1 / 10)),
                              evidence2 @ [(''same_source'', EvBool True)])
                    else Inr (weight2, evidence2))))"

subsection \<open>The pass\<close>

text \<open>
  The evidence dictionary's \<open>type\<close> entry, with the default \<open>timing\<close> of
  \<open>evidence.get('type', 'timing')\<close>.
\<close>

definition evidence_type :: "(string \<times> ev_value) list \<Rightarrow> string" where
  "evidence_type ev =
     (case map_of ev ''type'' of Some (EvStr s) \<Rightarrow> s | _ \<Rightarrow> ''timing'')"

definition new_correlation ::
  "correlation list \<Rightarrow> flow \<Rightarrow> flow \<Rightarrow> rat \<Rightarrow> (string \<times> ev_value) list \<Rightarrow> correlation"
where
  "new_correlation rows flow1 flow2 weight ev =
     \<lparr>cid = next_id (map cid rows), flow_id = fid flow1, correlated_flow_id = fid flow2,
      correlation_weight = weight, correlation_type = evidence_type ev, evidence = ev\<rparr>"

text \<open>
  The engine: its window, the \<open>timedelta\<close> that the constructor makes of a whole
  number of seconds. The in-memory graph is not modelled; it takes no part in what is
  persisted.
\<close>

record CorrelationEngine =
  time_window :: int

definition CorrelationEngine_init :: "int \<Rightarrow> CorrelationEngine" where
  "CorrelationEngine_init time_window_seconds =
     \<lparr>time_window = time_window_seconds * 1000000\<rparr>"

text \<open>
  The inner loop over \<open>tor_flows[i+1:]\<close>. \<open>rows\<close> is the correlation table including the
  rows added so far in this transaction, \<open>n\<close> the running \<open>correlation_count\<close>. The loop
  ends at the first flow with a private source whose start lies outside the window.
\<close>

fun inner_loop ::
  "CorrelationEngine \<Rightarrow> store \<Rightarrow> string set \<Rightarrow> rat \<Rightarrow> flow \<Rightarrow> flow list
     \<Rightarrow> correlation list \<times> int \<Rightarrow> error + correlation list \<times> int"
where
  "inner_loop eng st internal_ips min_w flow1 [] acc = Inr acc"
| "inner_loop eng st internal_ips min_w flow1 (flow2 # rest) (rows, n) =
     (case is_internal_ip (src_ip flow2) (Some internal_ips) of
        Inl e \<Rightarrow> Inl e
      | Inr False \<Rightarrow> inner_loop eng st internal_ips min_w flow1 rest (rows, n)
      | Inr True \<Rightarrow>
          (if time_diff_of flow1 flow2 > total_seconds (time_window eng) then Inr (rows, n)
           else
             (case calculate_correlation st flow1 flow2 of
                Inl e \<Rightarrow> Inl e
              | Inr (weight, ev) \<Rightarrow>
                  (if weight \<ge> min_w
                   then inner_loop eng st internal_ips min_w flow1 rest
                          (rows @ [new_correlation rows flow1 flow2 weight ev], n + 1)
                   else inner_loop eng st internal_ips min_w flow1 rest (rows, n)))))"

fun outer_loop ::
  "CorrelationEngine \<Rightarrow> store \<Rightarrow> string set \<Rightarrow> rat \<Rightarrow> flow list
     \<Rightarrow> correlation list \<times> int \<Rightarrow> error + correlation list \<times> int"
where
  "outer_loop eng st internal_ips min_w [] acc = Inr acc"
| "outer_loop eng st internal_ips min_w (flow1 # rest) acc =
     (case is_internal_ip (src_ip flow1) (Some internal_ips) of
        Inl e \<Rightarrow> Inl e
      | Inr False \<Rightarrow> outer_loop eng st internal_ips min_w rest acc
      | Inr True \<Rightarrow>
          (case inner_loop eng st internal_ips min_w flow1 rest acc of
             Inl e \<Rightarrow> Inl e
           | Inr acc' \<Rightarrow> outer_loop eng st internal_ips min_w rest acc'))"

text \<open>
  The candidate set: the flows with an indicator set, in the order of \<open>ts_start\<close>
  (flows with equal start keep their table order).
\<close>

definition tor_flows_of :: "store \<Rightarrow> flow list" where
  "tor_flows_of st =
     sort_key ts_start
       (filter (\<lambda>f. possible_tor_handshake f \<or> relay_comm f \<or> directory_fetch f
                     \<or> obfsproxy_candidate f) (tbl_flows st))"

text \<open>
  \<open>correlate_flows\<close>: on success the new rows are committed and the count is returned;
  on an exception the transaction is rolled back and the exception is raised again. The
  session is closed either way.
\<close>

definition correlate_flows ::
  "CorrelationEngine \<Rightarrow> store \<Rightarrow> rat \<Rightarrow> store \<times> (error + int)"
where
  "correlate_flows eng st0 min_correlation_weight =
     (let st = get_session st0
      in case get_internal_ips st of
           Inl e \<Rightarrow> (session_close st, Inl e)
         | Inr internal_ips \<Rightarrow>
             (case outer_loop eng st internal_ips min_correlation_weight (tor_flows_of st)
                     (tbl_correlations st, 0) of
                Inl e \<Rightarrow> (session_close st, Inl e)
              | Inr (rows, correlation_count) \<Rightarrow>
                  (session_close (st\<lparr>tbl_correlations := rows\<rparr>), Inr correlation_count)))"

section \<open>Ingestion (src/src/collector/pcap_ingest.py)\<close>

text \<open>
  A packet as the ingestor reads it: the layers it tests for, the capture time
  \<open>float(packet.time)\<close>, a POSIX time in seconds, and the length on the wire. An
  address layer carries source and destination, a transport layer source and
  destination port.
\<close>

record packet =
  pkt_ip :: "(string \<times> string) option"
  pkt_ipv6 :: "(string \<times> string) option"
  pkt_tcp :: "(int \<times> int) option"
  pkt_udp :: "(int \<times> int) option"
  pkt_raw :: "bytes option"
  pkt_time :: double
  pkt_len :: nat

text \<open>
  \<open>datetime.fromtimestamp(timestamp)\<close> gives the naive local time of a POSIX time. The
  time is split into whole seconds and microseconds, the fraction times \<open>1e6\<close> being
  rounded half to even; the local calendar time of the whole second then comes from
  the rules of the zone the process runs in. A zone is modelled by its offset from
  UTC, in seconds, as a function of the POSIX second. The capture times of a pcap file
  have 32-bit seconds, for which the conversion raises no error.
\<close>

type_synonym timezone = "int \<Rightarrow> int"

definition timeval :: "double \<Rightarrow> int \<times> int" where
  "timeval d =
     (let intpart = (if 0 \<le> d then \<lfloor>d\<rfloor> else \<lceil>d\<rceil>);
          floatpart = rne (fmul (d - of_int intpart) 1000000)
      in if floatpart \<ge> 1000000 then (intpart + 1, floatpart - 1000000)
         else if floatpart < 0 then (intpart - 1, floatpart + 1000000)
         else (intpart, floatpart))"

definition fromtimestamp :: "timezone \<Rightarrow> double \<Rightarrow> datetime" where
  "fromtimestamp zone timestamp =
     (let (timet, us) = timeval timestamp
      in (timet + zone timet) * 1000000 + us)"

datatype FlowKey = FlowKey string int string int string

record FlowRecord =
  key :: FlowKey
  r_ts_start :: datetime
  r_ts_end :: datetime
  r_pkt_count :: int
  r_byte_count :: int
  r_payload_sample :: "bytes option"

definition FlowRecord_init :: "timezone \<Rightarrow> FlowKey \<Rightarrow> double \<Rightarrow> FlowRecord" where
  "FlowRecord_init zone k timestamp =
     \<lparr>key = k, r_ts_start = fromtimestamp zone timestamp,
      r_ts_end = fromtimestamp zone timestamp, r_pkt_count = 0,
      r_byte_count = 0, r_payload_sample = None\<rparr>"

definition update ::
  "timezone \<Rightarrow> FlowRecord \<Rightarrow> double \<Rightarrow> bytes option \<Rightarrow> nat \<Rightarrow> FlowRecord"
where
  "update zone r timestamp payload pkt_size =
     (let r1 = r\<lparr>r_ts_end := fromtimestamp zone timestamp,
                 r_pkt_count := r_pkt_count r + 1,
                 r_byte_count := r_byte_count r + int pkt_size\<rparr>
      in case payload of
           None \<Rightarrow> r1
         | Some data \<Rightarrow>
             if data \<noteq> [] \<and> \<not> truthy (r_payload_sample r1)
             then r1\<lparr>r_payload_sample := Some (take 512 data)\<rparr>
             else r1)"

definition to_flow_model :: "int \<Rightarrow> FlowRecord \<Rightarrow> flow" where
  "to_flow_model i r =
     (case key r of
        FlowKey sip sport dip dport proto \<Rightarrow>
          \<lparr>fid = i, src_ip = sip, src_port = sport, dst_ip = dip, dst_port = dport,
           protocol = proto, ts_start = r_ts_start r, ts_end = Some (r_ts_end r),
           pkt_count = r_pkt_count r, byte_count = r_byte_count r,
           payload_sample =
             (case r_payload_sample r of
                None \<Rightarrow> None
              | Some sample \<Rightarrow> if sample \<noteq> [] then Some (b64encode sample) else None),
           possible_tor_handshake = False, relay_comm = False, directory_fetch = False,
           obfsproxy_candidate = False, confidence_score = 0, confidence_category = None\<rparr>)"

text \<open>
  The ingestor: the batch-size hint and the dictionary of accumulators, an association
  list in insertion order.
\<close>

record PcapIngestor =
  batch_size :: int
  flows :: "(FlowKey \<times> FlowRecord) list"

fun dict_set :: "'k \<Rightarrow> 'v \<Rightarrow> ('k \<times> 'v) list \<Rightarrow> ('k \<times> 'v) list" where
  "dict_set k v [] = [(k, v)]"
| "dict_set k v ((k', v') # rest) =
     (if k' = k then (k, v) # rest else (k', v') # dict_set k v rest)"

definition process_packet ::
  "timezone \<Rightarrow> PcapIngestor \<Rightarrow> packet \<Rightarrow> PcapIngestor \<times> FlowKey option"
where
  "process_packet zone ing p =
     (case (case pkt_ip p of Some a \<Rightarrow> Some a | None \<Rightarrow> pkt_ipv6 p) of
        None \<Rightarrow> (ing, None)
      | Some (src, dst) \<Rightarrow>
          (case (case pkt_tcp p of
                   Some (sport, dport) \<Rightarrow> Some (''TCP'', sport, dport)
                 | None \<Rightarrow>
                     (case pkt_udp p of
                        Some (sport, dport) \<Rightarrow> Some (''UDP'', sport, dport)
                      | None \<Rightarrow> None)) of
             None \<Rightarrow> (ing, None)
           | Some (proto, sport, dport) \<Rightarrow>
               (let flow_key = FlowKey src sport dst dport proto;
                    payload = pkt_raw p;
                    timestamp = pkt_time p;
                    pkt_size = pkt_len p;
                    r = (case map_of (flows ing) flow_key of
                           None \<Rightarrow> FlowRecord_init zone flow_key timestamp
                         | Some r0 \<Rightarrow> r0)
                in (ing\<lparr>flows := dict_set flow_key (update zone r timestamp payload pkt_size)
                                     (flows ing)\<rparr>,
                    Some flow_key))))"

text \<open>
  \<open>_flush_flows\<close> writes one row per accumulator in one bulk insert, giving each the
  next primary key. It leaves the dictionary as it is.
\<close>

fun bulk_save :: "flow list \<Rightarrow> FlowRecord list \<Rightarrow> flow list" where
  "bulk_save rows [] = rows"
| "bulk_save rows (r # rest) =
     bulk_save (rows @ [to_flow_model (next_id (map fid rows)) r]) rest"

definition flush_flows :: "PcapIngestor \<Rightarrow> store \<Rightarrow> store" where
  "flush_flows ing st0 =
     (if flows ing = [] then st0
      else
        let st = get_session st0
        in session_close (st\<lparr>tbl_flows := bulk_save (tbl_flows st) (map snd (flows ing))\<rparr>))"

fun stream_loop ::
  "timezone \<Rightarrow> PcapIngestor \<Rightarrow> store \<Rightarrow> packet list \<Rightarrow> PcapIngestor \<times> store"
where
  "stream_loop zone ing st [] = (ing, st)"
| "stream_loop zone ing st (p # rest) =
     (let ing' = fst (process_packet zone ing p);
          st' = (if int (length (flows ing')) \<ge> batch_size ing'
                 then flush_flows ing' st else st)
      in stream_loop zone ing' st' rest)"

fun eager_loop :: "timezone \<Rightarrow> PcapIngestor \<Rightarrow> packet list \<Rightarrow> PcapIngestor" where
  "eager_loop zone ing [] = ing"
| "eager_loop zone ing (p # rest) = eager_loop zone (fst (process_packet zone ing p)) rest"

text \<open>
  \<open>ingest_pcap\<close> on the packets of a readable capture: the dictionary is cleared, the
  packets are processed in one of the two modes, a final flush runs, and the number of
  accumulators is returned.
\<close>

definition ingest_pcap ::
  "timezone \<Rightarrow> PcapIngestor \<Rightarrow> store \<Rightarrow> packet list \<Rightarrow> bool
     \<Rightarrow> (PcapIngestor \<times> store) \<times> int"
where
  "ingest_pcap zone ing0 st packets streaming =
     (let ing = ing0\<lparr>flows := []\<rparr>;
          (ing1, st1) = (if streaming then stream_loop zone ing st packets
                         else (eager_loop zone ing packets, st));
          st2 = flush_flows ing1 st1
      in ((ing1, st2), int (length (flows ing1))))"

section \<open>Fixtures\<close>

text \<open>
  A flow row as the ingestor persists it: the four indicators are false, the score is
  zero and the category is absent until the classifier and the scorer run.
\<close>

definition fresh_flow ::
  "int \<Rightarrow> string \<Rightarrow> int \<Rightarrow> string \<Rightarrow> int \<Rightarrow> string \<Rightarrow> datetime \<Rightarrow> datetime \<Rightarrow> int \<Rightarrow> int
     \<Rightarrow> string option \<Rightarrow> flow"
where
  "fresh_flow i sip sport dip dport proto t0 t1 pkts byts payload =
     \<lparr>fid = i, src_ip = sip, src_port = sport, dst_ip = dip, dst_port = dport,
      protocol = proto, ts_start = t0, ts_end = Some t1, pkt_count = pkts,
      byte_count = byts, payload_sample = payload, possible_tor_handshake = False,
      relay_comm = False, directory_fetch = False, obfsproxy_candidate = False,
      confidence_score = 0, confidence_category = None\<rparr>"

definition empty_store :: store where
  "empty_store = \<lparr>tbl_flows = [], tbl_tor_nodes = [], tbl_correlations = [],
                   open_sessions = 0\<rparr>"

text \<open>
  The end-to-end scenario: one TCP flow of 100 packets and 10000 bytes without payload
  towards a relay listed with the flags Guard, Fast and Stable. The flow lasts
  \<open>dur\<close> microseconds.
\<close>

definition solo_flow :: "datetime \<Rightarrow> flow" where
  "solo_flow dur =
     fresh_flow 1 ''192.168.1.100'' 50000 ''185.220.101.1'' 9001 ''TCP'' 0 dur 100 10000 None"

definition solo_directory :: "node_data list" where
  "solo_directory =
     [\<lparr>nd_ip_address = ''185.220.101.1'', nd_port = None, nd_fingerprint = None,
       nd_nickname = None, nd_flags = Some [''Guard'', ''Fast'', ''Stable''],
       nd_country_code = None, nd_asn = None, nd_bandwidth = None\<rparr>]"

text \<open>
  The directory is loaded into the store holding the flow, the flow is classified with
  the extractor that loaded the directory, and the scorer runs over the result.
\<close>

definition solo_loaded :: "datetime \<Rightarrow> store \<times> TorExtractor" where
  "solo_loaded dur =
     fst (load_tor_nodes (empty_store\<lparr>tbl_flows := [solo_flow dur]\<rparr>)
            \<lparr>tor_node_ips = {}\<rparr> solo_directory)"

definition solo_classified :: "datetime \<Rightarrow> store" where
  "solo_classified dur =
     (let (st, ex) = solo_loaded dur
      in st\<lparr>tbl_flows := map (\<lambda>f. fst (analyze_flow ex f)) (tbl_flows st)\<rparr>)"

definition solo_scored :: "datetime \<Rightarrow> store" where
  "solo_scored dur = fst (score_all_flows (solo_classified dur))"

text \<open>A flow without payload sample that carried more than 10000 bytes.\<close>

definition bulk_flow :: flow where
  "bulk_flow =
     fresh_flow 1 ''192.168.1.100'' 50000 ''8.8.8.8'' 443 ''TCP'' 0 1000000 40 20000 None"

text \<open>The same flow with a three-byte payload sample (\<open>QUJD\<close> is Base64 for \<open>ABC\<close>).\<close>

definition bulk_flow_with_payload :: flow where
  "bulk_flow_with_payload = bulk_flow\<lparr>payload_sample := Some ''QUJD''\<rparr>"

section \<open>The payload component as the specification words it\<close>

text \<open>
  Specification, section 4.5: start at 0; +12 if \<open>possible_handshake\<close>; +16 if
  \<open>obfuscated_candidate\<close>; +4 if \<open>byte_count > 10000\<close>; clamp to 20.
\<close>

definition spec_payload_component :: "flow \<Rightarrow> rat" where
  "spec_payload_component f =
     min 20 ((if possible_tor_handshake f then 12 else 0)
             + (if obfsproxy_candidate f then 16 else 0)
             + (if byte_count f > 10000 then 4 else 0))"

section \<open>Further fixtures\<close>

text \<open>Payloads of 100 and of 101 pairwise different bytes, free of protocol markers.\<close>

definition bytes100 :: bytes where
  "bytes100 = map chr_byte [0..<100]"

definition bytes101 :: bytes where
  "bytes101 = map chr_byte [0..<101]"

definition flow100 :: flow where
  "flow100 =
     fresh_flow 1 ''192.168.1.100'' 50000 ''8.8.8.8'' 443 ''TCP'' 0 1000000 3 400
       (Some (b64encode bytes100))"

definition flow101 :: flow where
  "flow101 =
     fresh_flow 1 ''192.168.1.100'' 50000 ''8.8.8.8'' 443 ''TCP'' 0 1000000 3 400
       (Some (b64encode bytes101))"

definition no_extractor :: TorExtractor where
  "no_extractor = \<lparr>tor_node_ips = {}\<rparr>"

text \<open>Rule R5 as the specification words it, on the decoded payload prefix.\<close>

definition spec_R5 :: "bytes \<Rightarrow> bool" where
  "spec_R5 payload =
     (length payload \<ge> 100
      \<and> \<not> list_ex (\<lambda>marker. bytes_in marker (take 100 payload)) common_markers
      \<and> card (set (take 100 payload)) > 50)"

text \<open>
  A store that already holds a relay at 185.220.101.1, and a directory snapshot that
  lists the same address with other attributes.
\<close>

definition old_node :: tor_node where
  "old_node =
     \<lparr>nid = 7, ip_address = ''185.220.101.1'', port = 9001, fingerprint = Some ''ABC123'',
      nickname = Some ''OldRelay'', flags = Some [''Guard''], country_code = Some ''DE'',
      asn = Some ''AS1'', bandwidth = Some 100\<rparr>"

definition old_store :: store where
  "old_store = empty_store\<lparr>tbl_tor_nodes := [old_node]\<rparr>"

definition new_snapshot :: "node_data list" where
  "new_snapshot =
     [\<lparr>nd_ip_address = ''185.220.101.1'', nd_port = Some 443, nd_fingerprint = Some ''DEF456'',
       nd_nickname = Some ''NewRelay'', nd_flags = Some [''Exit'', ''Fast''],
       nd_country_code = Some ''NL'', nd_asn = Some ''AS2'', nd_bandwidth = Some 900\<rparr>,
      \<lparr>nd_ip_address = ''185.220.101.2'', nd_port = None, nd_fingerprint = None,
       nd_nickname = None, nd_flags = None, nd_country_code = None, nd_asn = None,
       nd_bandwidth = None\<rparr>]"


definition default_engine :: CorrelationEngine where
  "default_engine = CorrelationEngine_init 10"

text \<open>
  A process that runs in UTC, and one that runs in the zone of Berlin, where the offset
  was two hours from 2024-03-31 01:00 UTC until 2024-10-27 01:00 UTC and is one hour
  around that period.
\<close>

definition utc :: timezone where
  "utc timet = 0"

definition berlin :: timezone where
  "berlin timet = (if 1711846800 \<le> timet \<and> timet < 1729990800 then 7200 else 3600)"

text \<open>A capture of a single TCP packet, and an ingestor with the batch-size hint 1.\<close>

definition one_packet :: packet where
  "one_packet =
     \<lparr>pkt_ip = Some (''192.168.1.100'', ''185.220.101.1''), pkt_ipv6 = None,
      pkt_tcp = Some (50000, 9001), pkt_udp = None, pkt_raw = None, pkt_time = 1,
      pkt_len = 60\<rparr>"

definition ingestor_batch_1 :: PcapIngestor where
  "ingestor_batch_1 = \<lparr>batch_size = 1, flows = []\<rparr>"

section \<open>Invariants of ingested flows\<close>

text \<open>
  The counters of an accumulator after at least one packet, and the bound on its
  payload sample.
\<close>

definition sample_ok :: "FlowRecord \<Rightarrow> bool" where
  "sample_ok r = (case r_payload_sample r of None \<Rightarrow> True | Some s \<Rightarrow> length s \<le> 512)"

definition acc_ok :: "FlowRecord \<Rightarrow> bool" where
  "acc_ok r = (1 \<le> r_pkt_count r \<and> r_pkt_count r \<le> r_byte_count r \<and> sample_ok r)"

text \<open>
  The same for a persisted flow row: the stored text decodes to at most 512 bytes.
\<close>

definition row_ok :: "flow \<Rightarrow> bool" where
  "row_ok f =
     (1 \<le> pkt_count f \<and> pkt_count f \<le> byte_count f
      \<and> (case payload_sample f of
            None \<Rightarrow> True
          | Some text \<Rightarrow>
              (case b64decode text of None \<Rightarrow> False | Some s \<Rightarrow> length s \<le> 512)))"

definition ts_ordered :: "flow \<Rightarrow> bool" where
  "ts_ordered f = (case ts_end f of None \<Rightarrow> False | Some te \<Rightarrow> ts_start f \<le> te)"

text \<open>The rows an ingest run added to the flow table.\<close>

definition ingested_rows ::
  "timezone \<Rightarrow> PcapIngestor \<Rightarrow> store \<Rightarrow> packet list \<Rightarrow> bool \<Rightarrow> flow list"
where
  "ingested_rows zone ing st packets streaming =
     drop (length (tbl_flows st))
       (tbl_flows (snd (fst (ingest_pcap zone ing st packets streaming))))"

text \<open>
  Two packets of one 5-tuple: the first captured at second 10, the second at second 5,
  and the same two packets in the order of their times.
\<close>

definition late_packet :: packet where
  "late_packet = one_packet\<lparr>pkt_time := 10\<rparr>"

definition early_packet :: packet where
  "early_packet = one_packet\<lparr>pkt_time := 5, pkt_raw := Some ''abc''\<rparr>"

text \<open>
  Two packets of one 5-tuple captured one second apart, at 00:59:59 UTC and at
  01:00:00 UTC on 2024-10-27: in Berlin the clocks show 02:59:59 and 02:00:00.
\<close>

definition before_change :: packet where
  "before_change = one_packet\<lparr>pkt_time := 1729990799\<rparr>"

definition after_change :: packet where
  "after_change = one_packet\<lparr>pkt_time := 1729990800\<rparr>"

definition default_ingestor :: PcapIngestor where
  "default_ingestor = \<lparr>batch_size = 1000, flows = []\<rparr>"

text \<open>
  The 5-tuple of a parseable packet: a packet with an IPv4 or IPv6 layer and a TCP or
  UDP layer; \<open>None\<close> for a packet the ingestor skips.
\<close>

definition packet_key :: "packet \<Rightarrow> FlowKey option" where
  "packet_key p =
     (case (case pkt_ip p of Some a \<Rightarrow> Some a | None \<Rightarrow> pkt_ipv6 p) of
        None \<Rightarrow> None
      | Some (src, dst) \<Rightarrow>
          (case (case pkt_tcp p of
                   Some (sport, dport) \<Rightarrow> Some (''TCP'', sport, dport)
                 | None \<Rightarrow>
                     (case pkt_udp p of
                        Some (sport, dport) \<Rightarrow> Some (''UDP'', sport, dport)
                      | None \<Rightarrow> None)) of
             None \<Rightarrow> None
           | Some (proto, sport, dport) \<Rightarrow> Some (FlowKey src sport dst dport proto)))"

text \<open>
  The 5-tuples of the parseable packets of a capture, in capture order: their number is
  the \<open>M\<close> of the specification, the number of distinct ones its \<open>K\<close>.
\<close>

definition parseable_keys :: "packet list \<Rightarrow> FlowKey list" where
  "parseable_keys packets = List.map_filter packet_key packets"

text \<open>
  The parseable packets of a capture, and the local times that the ingestor gives
  them, in capture order.
\<close>

definition parseable :: "packet \<Rightarrow> bool" where
  "parseable p = (packet_key p \<noteq> None)"

definition local_times :: "timezone \<Rightarrow> packet list \<Rightarrow> datetime list" where
  "local_times zone packets =
     map (\<lambda>p. fromtimestamp zone (pkt_time p)) (filter parseable packets)"

text \<open>
  The accumulators count the keys \<open>ks\<close>: one accumulator per distinct key, and the
  packet counts add up to the number of keys seen.
\<close>

definition counted :: "(FlowKey \<times> FlowRecord) list \<Rightarrow> FlowKey list \<Rightarrow> bool" where
  "counted fl ks =
     (distinct (map fst fl) \<and> set (map fst fl) = set ks
      \<and> sum_list (map (\<lambda>kr. r_pkt_count (snd kr)) fl) = int (length ks))"

section \<open>The correlation pass as the specification words it\<close>

text \<open>
  Specification, section 4.4. The candidate pairs are the ordered pairs \<open>(a, b)\<close> of
  the candidate set, \<open>a\<close> before \<open>b\<close> in the order of \<open>ts_start\<close>, both with a private
  source address, whose starts differ by at most the window.
\<close>

fun later_pairs :: "'a list \<Rightarrow> ('a \<times> 'a) list" where
  "later_pairs [] = []"
| "later_pairs (x # xs) = map (Pair x) xs @ later_pairs xs"

definition private_src :: "string set \<Rightarrow> flow \<Rightarrow> bool" where
  "private_src internal_ips f = (is_internal_ip (src_ip f) (Some internal_ips) = Inr True)"

definition in_window :: "CorrelationEngine \<Rightarrow> flow \<Rightarrow> flow \<Rightarrow> bool" where
  "in_window eng a b = (time_diff_of a b \<le> total_seconds (time_window eng))"

definition pairs_of :: "CorrelationEngine \<Rightarrow> string set \<Rightarrow> flow list \<Rightarrow> (flow \<times> flow) list" where
  "pairs_of eng internal_ips fl =
     filter (\<lambda>(a, b). private_src internal_ips a \<and> private_src internal_ips b
                      \<and> in_window eng a b) (later_pairs fl)"

definition candidate_pairs :: "CorrelationEngine \<Rightarrow> store \<Rightarrow> (flow \<times> flow) list" where
  "candidate_pairs eng st =
     (case get_internal_ips st of
        Inl e \<Rightarrow> []
      | Inr internal_ips \<Rightarrow> pairs_of eng internal_ips (tor_flows_of st))"


text \<open>
  The same weight in double arithmetic: the terms are the doubles nearest to these
  decimals, they are added in this order, and the time difference, each mean, the
  ratio, the product and every sum are rounded.
\<close>

definition rounded_weight :: "bool \<Rightarrow> flow \<Rightarrow> flow \<Rightarrow> double" where
  "rounded_weight entry_exit a b =
     (let dt = \<bar>total_seconds (ts_start b - ts_start a)\<bar>;
          t = (if dt < 1 then round_double (4 / 10) else if dt < 5 then round_double (3 / 10)
               else if dt < 10 then round_double (2 / 10) else round_double (1 / 10));
          avg_a = true_div (byte_count a) (pkt_count a);
          avg_b = true_div (byte_count b) (pkt_count b);
          w1 = (if entry_exit then fadd t (round_double (3 / 10)) else t);
          w2 = (if pkt_count a > 0 \<and> pkt_count b > 0
                then fadd w1 (fmul (fdiv (min avg_a avg_b) (max avg_a avg_b))
                                (round_double (2 / 10)))
                else w1)
      in if src_ip a = src_ip b then fadd w2 (round_double (1 / 10)) else w2)"

definition entry_exit_matched :: "store \<Rightarrow> flow \<Rightarrow> flow \<Rightarrow> bool" where
  "entry_exit_matched st a b = (check_entry_exit_pattern st a b = Inr True)"

definition pair_weight :: "store \<Rightarrow> flow \<Rightarrow> flow \<Rightarrow> double" where
  "pair_weight st a b = rounded_weight (entry_exit_matched st a b) a b"

text \<open>The rows a pass added, and what a row says apart from its primary key.\<close>

definition new_correlations :: "store \<Rightarrow> store \<Rightarrow> correlation list" where
  "new_correlations st st' = drop (length (tbl_correlations st)) (tbl_correlations st')"

definition row_content ::
  "correlation \<Rightarrow> int \<times> int \<times> rat \<times> string \<times> (string \<times> ev_value) list"
where
  "row_content c =
     (flow_id c, correlated_flow_id c, correlation_weight c, correlation_type c, evidence c)"


text \<open>
  The body of the inner loop for one pair in the window, and its iteration over a
  list of pairs: an exception ends the iteration.
\<close>

definition add_pair ::
  "store \<Rightarrow> rat \<Rightarrow> correlation list \<times> int \<Rightarrow> flow \<times> flow \<Rightarrow> error + correlation list \<times> int"
where
  "add_pair st min_w acc p =
     (case calculate_correlation st (fst p) (snd p) of
        Inl e \<Rightarrow> Inl e
      | Inr (weight, ev) \<Rightarrow>
          (if weight \<ge> min_w
           then Inr (fst acc @ [new_correlation (fst acc) (fst p) (snd p) weight ev], snd acc + 1)
           else Inr acc))"

fun fold_pairs ::
  "store \<Rightarrow> rat \<Rightarrow> (flow \<times> flow) list \<Rightarrow> correlation list \<times> int
     \<Rightarrow> error + correlation list \<times> int"
where
  "fold_pairs st min_w [] acc = Inr acc"
| "fold_pairs st min_w (p # ps) acc =
     (case add_pair st min_w acc p of
        Inl e \<Rightarrow> Inl e
      | Inr acc' \<Rightarrow> fold_pairs st min_w ps acc')"

text \<open>What one pair contributes to the table, apart from the primary key.\<close>

definition pair_row ::
  "store \<Rightarrow> rat \<Rightarrow> flow \<times> flow
     \<Rightarrow> (int \<times> int \<times> rat \<times> string \<times> (string \<times> ev_value) list) option"
where
  "pair_row st min_w p =
     (case calculate_correlation st (fst p) (snd p) of
        Inl e \<Rightarrow> None
      | Inr (weight, ev) \<Rightarrow>
          (if weight \<ge> min_w
           then Some (fid (fst p), fid (snd p), weight, evidence_type ev, ev)
           else None))"

text \<open>
  Scenario 2 of the specification: two flows from 192.168.1.100 that start half a
  second apart, the first to a Guard relay, the second to 8.8.8.8:443.
\<close>

definition guard_flow :: flow where
  "guard_flow =
     (fresh_flow 1 ''192.168.1.100'' 50000 ''185.220.101.1'' 9001 ''TCP''
        0 2000000 100 10000 None)\<lparr>relay_comm := True\<rparr>"

definition exit_flow :: flow where
  "exit_flow =
     (fresh_flow 2 ''192.168.1.100'' 50001 ''8.8.8.8'' 443 ''TCP''
        500000 2500000 50 5000 None)\<lparr>possible_tor_handshake := True\<rparr>"

definition pair_store :: store where
  "pair_store =
     \<lparr>tbl_flows = [guard_flow, exit_flow],
      tbl_tor_nodes =
        [\<lparr>nid = 1, ip_address = ''185.220.101.1'', port = 9001, fingerprint = None,
          nickname = None, flags = Some [''Guard''], country_code = None, asn = None,
          bandwidth = None\<rparr>],
      tbl_correlations = [], open_sessions = 0\<rparr>"

text \<open>
  The default threshold \<open>0.3\<close> of \<open>correlate_flows\<close>, the row that a pass over
  \<open>pair_store\<close> finds, whose weight is \<open>0.9999999999999999\<close>, one unit in the last
  place below 1, and the store after one and two passes.
\<close>

definition default_min_weight :: double where
  "default_min_weight = round_double (3 / 10)"

definition pair_row_1 :: correlation where
  "pair_row_1 =
     \<lparr>cid = 1, flow_id = 1, correlated_flow_id = 2,
      correlation_weight = 9007199254740991 / 9007199254740992,
      correlation_type = ''entry_exit'',
      evidence = [(''timing_diff_seconds'', EvNum (1 / 2)),
                  (''timing_score'', EvNum (round_double (4 / 10))),
                  (''type'', EvStr ''entry_exit''), (''entry_exit_pattern'', EvBool True),
                  (''size_similarity'', EvNum (round_double (2 / 10))),
                  (''same_source'', EvBool True)]\<rparr>"

definition pair_store_1 :: store where
  "pair_store_1 = pair_store\<lparr>tbl_correlations := [pair_row_1]\<rparr>"

definition pair_store_2 :: store where
  "pair_store_2 = pair_store\<lparr>tbl_correlations := [pair_row_1, pair_row_1\<lparr>cid := 2\<rparr>]\<rparr>"


text \<open>Two flows with packets and no bytes at all.\<close>

definition zero_byte_flow :: "int \<Rightarrow> flow" where
  "zero_byte_flow i =
     (fresh_flow i ''192.168.1.100'' 50000 ''8.8.8.8'' 9001 ''TCP'' 0 1000000 5 0 None)
       \<lparr>relay_comm := True\<rparr>"

section \<open>Rounding to a double\<close>

text \<open>
  Rounding is monotone, odd, leaves a double as it is, and keeps a positive number
  between the two powers of two around it.
\<close>

lemma rne_bounds: "\<lfloor>z\<rfloor> \<le> rne z" "rne z \<le> \<lfloor>z\<rfloor> + 1"
  by (simp_all add: rne_def Let_def)

lemma rne_of_int [simp]: "rne (of_int n) = n"
  by (simp add: rne_def)

lemma rne_mono:
  assumes "z \<le> w"
  shows "rne z \<le> rne w"
proof (cases "\<lfloor>z\<rfloor> = \<lfloor>w\<rfloor>")
  case True
  with assms show ?thesis
    by (auto simp: rne_def Let_def)
next
  case False
  with assms have "\<lfloor>z\<rfloor> + 1 \<le> \<lfloor>w\<rfloor>"
    using floor_mono [OF assms] by linarith
  with rne_bounds(2) [of z] rne_bounds(1) [of w] show ?thesis by linarith
qed

lemma powi_nonneg_eq: "0 \<le> k \<Longrightarrow> (2::rat) powi k = of_int (2 ^ nat k)"
  by (simp add: power_int_def)

lemma powi_nonpos_eq: "k \<le> 0 \<Longrightarrow> (2::rat) powi k = 1 / of_int (2 ^ nat (- k))"
  by (simp add: power_int_def field_simps)

lemma ilog2_bounds:
  assumes "0 < q"
  shows "2 powi (ilog2 q) \<le> q" and "q < 2 powi (ilog2 q + 1)"
proof -
  have "2 powi (ilog2 q) \<le> q \<and> q < 2 powi (ilog2 q + 1)"
  proof (cases "1 \<le> q")
    case True
    define n where "n = \<lfloor>q\<rfloor>"
    have n: "0 < n" using True by (simp add: n_def)
    from bitlen_bounds [OF n] have lo: "2 ^ nat (bitlen n - 1) \<le> n" and hi: "n < 2 ^ nat (bitlen n)"
      by simp_all
    have b: "1 \<le> bitlen n"
      using n bitlen_eq_zero_iff [of n] bitlen_nonneg [of n] by linarith
    have k: "ilog2 q = bitlen n - 1" using True by (simp add: ilog2_def n_def)
    have "(2::rat) powi (ilog2 q) = of_int (2 ^ nat (bitlen n - 1))"
      using b by (simp add: k powi_nonneg_eq)
    also have "\<dots> \<le> of_int n" using lo by (simp only: of_int_le_iff)
    also have "\<dots> \<le> q" by (simp add: n_def)
    finally have 1: "2 powi (ilog2 q) \<le> q" .
    have "q < of_int (n + 1)" by (simp add: n_def) linarith
    also have "\<dots> \<le> of_int (2 ^ nat (bitlen n))"
      using hi by (simp only: of_int_le_iff)
    also have "\<dots> = (2::rat) powi (ilog2 q + 1)"
      using b by (simp add: k powi_nonneg_eq)
    finally have 2: "q < 2 powi (ilog2 q + 1)" .
    from 1 2 show ?thesis ..
  next
    case False
    define c where "c = \<lceil>1 / q\<rceil>"
    from False assms have m: "1 < 1 / q" by (simp add: field_simps)
    have c1: "of_int c - 1 < 1 / q"
      unfolding c_def by linarith
    have c2: "1 / q \<le> of_int c"
      unfolding c_def by linarith
    from m c2 have "1 < (of_int c :: rat)" by linarith
    then have "1 < c" by simp
    then have n: "0 < c - 1" by simp
    define j where "j = bitlen (c - 1)"
    from bitlen_bounds [OF n] have lo: "2 ^ nat (j - 1) \<le> c - 1" and hi: "c - 1 < 2 ^ nat j"
      by (simp_all add: j_def)
    have b: "1 \<le> j"
      using n bitlen_eq_zero_iff [of "c - 1"] bitlen_nonneg [of "c - 1"] unfolding j_def by linarith
    have k: "ilog2 q = - j" using False by (simp add: ilog2_def c_def j_def)
    have p: "(0::rat) < of_int (2 ^ nat j)" and p': "(0::rat) < of_int (2 ^ nat (j - 1))" by simp_all
    have "1 / q \<le> of_int c" by (rule c2)
    also have "(of_int c :: rat) \<le> of_int (2 ^ nat j)" using hi by (simp only: of_int_le_iff)
    finally have "1 / q \<le> of_int (2 ^ nat j)" .
    then have "1 / of_int (2 ^ nat j) \<le> q"
      using assms p by (simp add: field_simps)
    then have 1: "2 powi (ilog2 q) \<le> q"
      using b by (simp add: k powi_nonpos_eq)
    have "(of_int (2 ^ nat (j - 1)) :: rat) \<le> of_int (c - 1)" using lo by (simp only: of_int_le_iff)
    also have "\<dots> < 1 / q" using c1 by simp
    finally have "(of_int (2 ^ nat (j - 1)) :: rat) < 1 / q" .
    then have "q < 1 / of_int (2 ^ nat (j - 1))"
      using assms p' by (simp add: field_simps)
    moreover have "(2::rat) powi (ilog2 q + 1) = 1 / of_int (2 ^ nat (j - 1))"
      using b by (simp add: k powi_nonpos_eq)
    ultimately have 2: "q < 2 powi (ilog2 q + 1)" by simp
    from 1 2 show ?thesis ..
  qed
  then show "2 powi (ilog2 q) \<le> q" and "q < 2 powi (ilog2 q + 1)" by simp_all
qed


lemma rne_minus: "rne (- z) = - rne z"
proof (cases "z = of_int \<lfloor>z\<rfloor>")
  case True
  then obtain n where "z = of_int n" ..
  then have "- z = of_int (- n)" by simp
  then show ?thesis unfolding \<open>z = of_int n\<close> by (simp only: rne_of_int)
next
  case False
  then have f: "\<lfloor>- z\<rfloor> = - \<lfloor>z\<rfloor> - 1"
    by (simp add: floor_minus ceiling_altdef)
  have d: "0 < z - of_int \<lfloor>z\<rfloor>" using False by linarith
  show ?thesis
    unfolding rne_def Let_def f using d by (auto simp: algebra_simps)
qed

lemma powi_pos: "0 < (2::rat) powi k"
  by simp

lemma powi_le: "k \<le> l \<Longrightarrow> (2::rat) powi k \<le> 2 powi l"
  by (rule power_int_increasing) simp_all


lemma ilog2_mono:
  assumes "0 < x" and "x \<le> y"
  shows "ilog2 x \<le> ilog2 y"
proof (rule ccontr)
  assume "\<not> ilog2 x \<le> ilog2 y"
  then have "ilog2 y + 1 \<le> ilog2 x" by simp
  from powi_le [OF this] ilog2_bounds(1) [OF assms(1)] ilog2_bounds(2) [of y] assms
  show False by linarith
qed

lemma powi_split: "(2::rat) powi k = of_int (2 ^ 52) * 2 powi (k - 52)"
  "(2::rat) powi (k + 1) = of_int (2 ^ 53) * 2 powi (k - 52)"
proof -
  have "(2::rat) powi k = 2 powi (52 + (k - 52))" by simp
  also have "\<dots> = 2 powi 52 * 2 powi (k - 52)" by (rule power_int_add) simp
  finally show "(2::rat) powi k = of_int (2 ^ 52) * 2 powi (k - 52)" by simp
  have "k + 1 = 53 + (k - 52)" by simp
  then have "(2::rat) powi (k + 1) = 2 powi (53 + (k - 52))" by (rule arg_cong)
  also have "\<dots> = 2 powi 53 * 2 powi (k - 52)" by (rule power_int_add) simp
  finally show "(2::rat) powi (k + 1) = of_int (2 ^ 53) * 2 powi (k - 52)" by simp
qed

lemma round_double_pos:
  assumes "0 < x"
  shows "round_double x = of_int (rne (x / 2 powi (ilog2 x - 52))) * 2 powi (ilog2 x - 52)"
  using assms by (simp add: round_double_def Let_def)

lemma mantissa_bounds:
  assumes "0 < x"
  shows "2 ^ 52 \<le> rne (x / 2 powi (ilog2 x - 52))"
    and "rne (x / 2 powi (ilog2 x - 52)) \<le> 2 ^ 53"
proof -
  let ?s = "(2::rat) powi (ilog2 x - 52)"
  have s: "0 < ?s" by (rule powi_pos)
  have "of_int (2 ^ 52) * ?s \<le> x"
    using ilog2_bounds(1) [OF assms] by (simp only: powi_split(1) [symmetric])
  then have "of_int (2 ^ 52) \<le> x / ?s"
    using s by (simp add: pos_le_divide_eq)
  from rne_mono [OF this] show "2 ^ 52 \<le> rne (x / ?s)" by (simp only: rne_of_int)
  have "x \<le> of_int (2 ^ 53) * ?s"
    using ilog2_bounds(2) [OF assms] by (simp only: powi_split(2) [symmetric])
  then have "x / ?s \<le> of_int (2 ^ 53)"
    using s by (simp add: pos_divide_le_eq)
  from rne_mono [OF this] show "rne (x / ?s) \<le> 2 ^ 53" by (simp only: rne_of_int)
qed

lemma round_double_bounds:
  assumes "0 < x"
  shows "2 powi (ilog2 x) \<le> round_double x" and "round_double x \<le> 2 powi (ilog2 x + 1)"
proof -
  let ?s = "(2::rat) powi (ilog2 x - 52)"
  let ?m = "rne (x / ?s)"
  have s: "0 \<le> ?s" by simp
  have "of_int (2 ^ 52) * ?s \<le> of_int ?m * ?s"
    using mantissa_bounds(1) [OF assms] by (intro mult_right_mono s) (simp only: of_int_le_iff)
  then show "2 powi (ilog2 x) \<le> round_double x"
    by (simp only: powi_split(1) [symmetric] round_double_pos [OF assms])
  have "of_int ?m * ?s \<le> of_int (2 ^ 53) * ?s"
    using mantissa_bounds(2) [OF assms] by (intro mult_right_mono s) (simp only: of_int_le_iff)
  then show "round_double x \<le> 2 powi (ilog2 x + 1)"
    by (simp only: powi_split(2) [symmetric] round_double_pos [OF assms])
qed

lemma round_double_0 [simp]: "round_double 0 = 0"
  by (simp add: round_double_def)

lemma round_double_gt_0: "0 < x \<Longrightarrow> 0 < round_double x"
  using round_double_bounds(1) [of x] powi_pos [of "ilog2 x"] by linarith

lemma round_double_minus: "round_double (- x) = - round_double x"
  by (simp add: round_double_def Let_def rne_minus)

lemma round_double_mono_pos:
  assumes "0 < x" and "x \<le> y"
  shows "round_double x \<le> round_double y"
proof (cases "ilog2 x = ilog2 y")
  case True
  let ?s = "(2::rat) powi (ilog2 y - 52)"
  have y: "0 < y" using assms by linarith
  have "x / ?s \<le> y / ?s" using assms(2) by (simp add: divide_right_mono)
  from rne_mono [OF this] have "of_int (rne (x / ?s)) * ?s \<le> of_int (rne (y / ?s)) * ?s"
    by (intro mult_right_mono) simp_all
  then show ?thesis
    by (simp only: round_double_pos [OF assms(1)] round_double_pos [OF y] True)
next
  case False
  have y: "0 < y" using assms by linarith
  from False ilog2_mono [OF assms] have "ilog2 x + 1 \<le> ilog2 y" by linarith
  from powi_le [OF this] round_double_bounds(2) [OF assms(1)] round_double_bounds(1) [OF y]
  show ?thesis by linarith
qed

lemma round_double_nonneg: "0 \<le> x \<Longrightarrow> 0 \<le> round_double x"
  using round_double_gt_0 [of x] by (cases "x = 0") simp_all

lemma round_double_mono:
  assumes "x \<le> y"
  shows "round_double x \<le> round_double y"
proof -
  consider "0 < x" | "x = 0" | "x < 0" "y < 0" | "x < 0" "0 \<le> y" by linarith
  then show ?thesis
  proof cases
    case 1
    then show ?thesis using assms by (rule round_double_mono_pos)
  next
    case 2
    then show ?thesis using assms round_double_nonneg [of y] by simp
  next
    case 3
    then have "0 < - y" "- y \<le> - x" using assms by simp_all
    from round_double_mono_pos [OF this] show ?thesis by (simp add: round_double_minus)
  next
    case 4
    then have "0 < - x" by simp
    from round_double_gt_0 [OF this] round_double_nonneg [OF 4(2)] show ?thesis
      by (simp add: round_double_minus)
  qed
qed



text \<open>
  The products of the scorer: each weight times each of its factors is an integer in
  double arithmetic too.
\<close>

lemma scorer_products_exact:
  "fmul 40 (round_double (5 / 10)) = 40 * (5 / 10)"
  "fmul 40 (round_double (4 / 10)) = 40 * (4 / 10)"
  "fmul 40 (round_double (3 / 10)) = 40 * (3 / 10)"
  "fmul 40 (round_double (2 / 10)) = 40 * (2 / 10)"
  "fmul 40 (round_double (1 / 10)) = 40 * (1 / 10)"
  "fmul 30 (round_double (5 / 10)) = 30 * (5 / 10)"
  "fmul 30 (round_double (3 / 10)) = 30 * (3 / 10)"
  "fmul 30 (round_double (2 / 10)) = 30 * (2 / 10)"
  "fmul 20 (round_double (6 / 10)) = 20 * (6 / 10)"
  "fmul 20 (round_double (8 / 10)) = 20 * (8 / 10)"
  "fmul 20 (round_double (2 / 10)) = 20 * (2 / 10)"
  "fmul 10 (round_double (5 / 10)) = 10 * (5 / 10)"
  "fmul 10 (round_double (3 / 10)) = 10 * (3 / 10)"
  "fmul 10 (round_double (2 / 10)) = 10 * (2 / 10)"
  by code_simp+

section \<open>Auxiliary facts\<close>

lemma total_seconds_mono: "d \<le> e \<Longrightarrow> total_seconds d \<le> total_seconds e"
  unfolding total_seconds_def true_div_def
  by (intro round_double_mono divide_right_mono) simp_all

lemma total_seconds_nonneg: "0 \<le> d \<Longrightarrow> 0 \<le> total_seconds d"
  unfolding total_seconds_def true_div_def by (intro round_double_nonneg) simp

lemma total_seconds_gt_60: "total_seconds d > 60 \<longleftrightarrow> d > 60000000"
proof
  assume a: "total_seconds d > 60"
  show "d > 60000000"
  proof (rule ccontr)
    assume "\<not> d > 60000000"
    then have "d \<le> 60000000" by simp
    from total_seconds_mono [OF this] have "total_seconds d \<le> total_seconds 60000000" .
    also have "total_seconds 60000000 = 60" by code_simp
    finally show False using a by simp
  qed
next
  assume "d > 60000000"
  then have "60000001 \<le> d" by simp
  from total_seconds_mono [OF this] have "total_seconds 60000001 \<le> total_seconds d" .
  moreover have "60 < total_seconds 60000001" by code_simp
  ultimately show "total_seconds d > 60" by simp
qed

lemma fadd_small:
  "fadd 40 0 = 40" "fadd 40 5 = 45" "fadd 40 7 = 47"
  by code_simp+

lemma tables_get_session:
  "tbl_flows (get_session st) = tbl_flows st"
  "tbl_tor_nodes (get_session st) = tbl_tor_nodes st"
  "tbl_correlations (get_session st) = tbl_correlations st"
  by (simp_all add: get_session_def)

lemma session_close_get_session: "session_close (get_session st) = st"
  by (simp add: session_close_def get_session_def)

lemma calculate_score_get_session: "calculate_score (get_session st) f = calculate_score st f"
  by (simp only: calculate_score_def score_tor_node_match_def score_timing_correlation_def
        flow_correlations_def tables_get_session)

lemma score_row_get_session: "score_row (get_session st) f = score_row st f"
  by (simp add: score_row_def calculate_score_get_session)

lemma score_all_flows_rows:
  "tbl_flows (fst (score_all_flows st)) = map (score_row st) (tbl_flows st)"
  by (simp add: score_all_flows_def Let_def session_close_def score_row_get_session
        tables_get_session)

lemma get_category_medium: "get_category 45 = ''Medium''" "get_category 47 = ''Medium''"
  by (simp_all add: get_category_def CATEGORIES_def)

section \<open>The solo relay scenario\<close>

lemma solo_classified_eq:
  "solo_classified dur =
     \<lparr>tbl_flows = [(solo_flow dur)\<lparr>relay_comm := True\<rparr>],
      tbl_tor_nodes =
        [\<lparr>nid = 1, ip_address = ''185.220.101.1'', port = 9001, fingerprint = None,
          nickname = None, flags = Some [''Guard'', ''Fast'', ''Stable''],
          country_code = None, asn = None, bandwidth = None\<rparr>],
      tbl_correlations = [], open_sessions = 0\<rparr>"
  by (simp add: solo_classified_def solo_loaded_def load_tor_nodes_def solo_directory_def
        empty_store_def solo_flow_def fresh_flow_def get_session_def session_close_def
        query_first_def fingerprint_clash_def next_id_def new_tor_node_def analyze_flow_def
        TOR_PORTS_def)

lemma solo_components:
  "calculate_score (solo_classified dur) ((solo_flow dur)\<lparr>relay_comm := True\<rparr>) =
     \<lparr>tor_node_match = 40, timing_correlation = 0, payload_similarity = 0,
      unusual_patterns = (if dur > 60000000 then 7 else 5),
      total = (if dur > 60000000 then 47 else 45)\<rparr>"
  by (simp add: solo_classified_eq calculate_score_def score_tor_node_match_def
        score_timing_correlation_def score_payload_patterns_def score_unusual_patterns_def
        query_first_def has_flag_def flow_correlations_def WEIGHTS_tor_node_match_def
        WEIGHTS_timing_correlation_def WEIGHTS_payload_similarity_def
        WEIGHTS_unusual_patterns_def solo_flow_def fresh_flow_def total_seconds_gt_60
        fadd_small)

lemma solo_scored_rows:
  "tbl_flows (solo_scored dur) =
     [(solo_flow dur)\<lparr>relay_comm := True,
        confidence_score := (if dur > 60000000 then 47 else 45),
        confidence_category := Some ''Medium''\<rparr>]"
proof -
  have rows: "tbl_flows (solo_classified dur) = [(solo_flow dur)\<lparr>relay_comm := True\<rparr>]"
    by (simp add: solo_classified_eq)
  show ?thesis
    unfolding solo_scored_def score_all_flows_rows rows
    apply (simp only: list.map score_row_def solo_components Let_def ScoreComponents.simps)
    apply (cases "60000000 < dur")
     apply (simp_all only: if_True if_False get_category_medium)
    done
qed

text \<open>
  Claim C3, as the code has it. In the solo relay scenario the classified flow has
  \<open>relay_comm\<close> set and \<open>possible_tor_handshake\<close> clear; the relay-node-match
  component clamps to 40, the timing and payload components are 0, and the
  unusual-shape component is 5 for the relay port, with nothing added for the packet
  count because 100 is not greater than 100, plus 2 when the flow lasts more than 60
  seconds. The total is therefore 45 (47 for a flow longer than 60 seconds), written
  back with the category Medium.
\<close>

theorem solo_relay_scored_45:
  "tbl_flows (solo_classified dur) = [(solo_flow dur)\<lparr>relay_comm := True\<rparr>]
   \<and> relay_comm ((solo_flow dur)\<lparr>relay_comm := True\<rparr>)
   \<and> \<not> possible_tor_handshake ((solo_flow dur)\<lparr>relay_comm := True\<rparr>)
   \<and> calculate_score (solo_classified dur) ((solo_flow dur)\<lparr>relay_comm := True\<rparr>) =
       \<lparr>tor_node_match = 40, timing_correlation = 0, payload_similarity = 0,
        unusual_patterns = (if dur > 60000000 then 7 else 5),
        total = (if dur > 60000000 then 47 else 45)\<rparr>
   \<and> tbl_flows (solo_scored dur) =
       [(solo_flow dur)\<lparr>relay_comm := True,
          confidence_score := (if dur > 60000000 then 47 else 45),
          confidence_category := Some ''Medium''\<rparr>]"
proof -
  have "tbl_flows (solo_classified dur) = [(solo_flow dur)\<lparr>relay_comm := True\<rparr>]"
    by (simp add: solo_classified_eq)
  moreover have "\<not> possible_tor_handshake ((solo_flow dur)\<lparr>relay_comm := True\<rparr>)"
    by (simp add: solo_flow_def fresh_flow_def)
  ultimately show ?thesis
    using solo_components [of dur] solo_scored_rows [of dur] by simp
qed

text \<open>The scenario with a flow of ten seconds: shape 5, total 45, category Medium.\<close>

theorem solo_relay_scored_45_witness:
  "unusual_patterns
     (calculate_score (solo_classified 10000000)
        ((solo_flow 10000000)\<lparr>relay_comm := True\<rparr>)) = 5
   \<and> tbl_flows (solo_scored 10000000) =
       [(solo_flow 10000000)\<lparr>relay_comm := True, confidence_score := 45,
          confidence_category := Some ''Medium''\<rparr>]"
  using solo_relay_scored_45 [of 10000000] by simp

text \<open>
  Claim C3 as stated fails: at the scenario the unusual-shape component is not 8 and
  the total is not 48.
\<close>

theorem solo_relay_not_48:
  "unusual_patterns
     (calculate_score (solo_classified 10000000)
        ((solo_flow 10000000)\<lparr>relay_comm := True\<rparr>)) \<noteq> 8
   \<and> total
     (calculate_score (solo_classified 10000000)
        ((solo_flow 10000000)\<lparr>relay_comm := True\<rparr>)) \<noteq> 48"
  by (simp add: solo_components)

section \<open>The payload component\<close>

text \<open>
  Claim C6, as the code has it. The payload component is 0 for a flow whose payload
  sample is absent or empty, whatever its byte count; for every other flow it is the
  clamped sum of the specification.
\<close>

theorem payload_component_guarded:
  "score_payload_patterns f =
     (if truthy (payload_sample f) then spec_payload_component f else 0)"
  by (simp add: score_payload_patterns_def spec_payload_component_def
        WEIGHTS_payload_similarity_def Let_def)

theorem payload_component_guarded_witness:
  "score_payload_patterns bulk_flow_with_payload = 4"
  using payload_component_guarded [of bulk_flow_with_payload]
  by (simp add: spec_payload_component_def bulk_flow_with_payload_def bulk_flow_def
        fresh_flow_def)

text \<open>
  Claim C6 as stated fails: a flow with no payload sample and 20000 bytes gets the
  payload component 0, where the specification's sum is 4.
\<close>

theorem payload_component_not_4:
  "payload_sample bulk_flow = None \<and> byte_count bulk_flow > 10000
   \<and> spec_payload_component bulk_flow = 4 \<and> score_payload_patterns bulk_flow = 0"
  by (simp add: score_payload_patterns_def spec_payload_component_def bulk_flow_def
        fresh_flow_def)

section \<open>Scoring a flow that does not exist\<close>

text \<open>
  Claim C10. When no flow row has the requested id, \<open>score_flow\<close> raises
  \<open>ValueError\<close> with the message \<open>Flow <id> not found\<close>, returns no score, and leaves
  the store as it found it: every table is unchanged and the session it opened is
  closed again.
\<close>

theorem score_flow_missing:
  assumes "i \<notin> set (map fid (tbl_flows st))"
  shows "score_flow st i = (st, Inl (ValueError (''Flow '' @ str_int i @ '' not found'')))"
proof -
  have "find (\<lambda>f. fid f = i) (tbl_flows st) = None"
    using assms by (auto simp: find_None_iff)
  then show ?thesis
    by (simp add: score_flow_def query_first_def tables_get_session
          session_close_get_session)
qed

theorem score_flow_missing_witness:
  "7 \<notin> set (map fid (tbl_flows (solo_classified 0)))
   \<and> score_flow (solo_classified 0) 7 =
       (solo_classified 0, Inl (ValueError ''Flow 7 not found''))"
proof -
  have h: "7 \<notin> set (map fid (tbl_flows (solo_classified 0)))"
    by (simp add: solo_classified_eq solo_flow_def fresh_flow_def)
  have "str_int 7 = ''7''"
    by code_simp
  with h score_flow_missing [OF h] show ?thesis by simp
qed

section \<open>Rule R5 of the classifier\<close>

lemma check_obfsproxy_patterns_iff:
  "check_obfsproxy_patterns payload \<longleftrightarrow>
     length payload > 100
     \<and> \<not> list_ex (\<lambda>marker. bytes_in marker (take 100 payload)) common_markers
     \<and> card (set (take 100 payload)) > 50"
  by (auto simp: check_obfsproxy_patterns_def Let_def)

lemma b64decode_Nil: "b64decode [] = Some []"
  by (simp add: b64decode_def)

lemma analyze_flow_obfs:
  "obfsproxy_candidate (fst (analyze_flow ex f)) =
     (obfsproxy_candidate f \<or>
      (case payload_sample f of
         None \<Rightarrow> False
       | Some text \<Rightarrow>
           text \<noteq> [] \<and> (case b64decode text of
                          None \<Rightarrow> False
                        | Some payload \<Rightarrow> check_obfsproxy_patterns payload)))"
  by (simp add: analyze_flow_def Let_def split: option.split)

lemma decode_bytes100: "b64decode (b64encode bytes100) = Some bytes100"
  by code_simp

lemma decode_bytes101: "b64decode (b64encode bytes101) = Some bytes101"
  by code_simp

lemma check_bytes100: "\<not> check_obfsproxy_patterns bytes100"
  by code_simp

lemma check_bytes101: "check_obfsproxy_patterns bytes101"
  by code_simp

text \<open>
  Claim C8, as the code has it. For a flow whose payload sample decodes, the
  classifier leaves \<open>obfsproxy_candidate\<close> set exactly when it was set before or the
  decoded prefix is longer than 100 bytes (at least 101), none of the six markers
  occurs in its first 100 bytes, and these 100 bytes hold more than 50 distinct values.
\<close>

theorem obfuscated_iff_longer_than_100:
  assumes "payload_sample f = Some text" and "b64decode text = Some payload"
  shows "obfsproxy_candidate (fst (analyze_flow ex f)) \<longleftrightarrow>
           obfsproxy_candidate f
           \<or> (length payload > 100
              \<and> \<not> list_ex (\<lambda>marker. bytes_in marker (take 100 payload)) common_markers
              \<and> card (set (take 100 payload)) > 50)"
proof (cases "text = []")
  case True
  with assms have "payload = []" by (simp add: b64decode_Nil)
  with True assms show ?thesis by (simp add: analyze_flow_obfs)
next
  case False
  with assms show ?thesis
    by (simp add: analyze_flow_obfs check_obfsproxy_patterns_iff)
qed

text \<open>A prefix of 101 pairwise different bytes fires the rule.\<close>

theorem obfuscated_iff_longer_than_100_witness:
  "payload_sample flow101 = Some (b64encode bytes101)
   \<and> b64decode (b64encode bytes101) = Some bytes101
   \<and> obfsproxy_candidate (fst (analyze_flow no_extractor flow101))"
proof -
  have a: "payload_sample flow101 = Some (b64encode bytes101)"
    by (simp add: flow101_def fresh_flow_def)
  have "length bytes101 > 100
          \<and> \<not> list_ex (\<lambda>marker. bytes_in marker (take 100 bytes101)) common_markers
          \<and> card (set (take 100 bytes101)) > 50"
    using check_bytes101 unfolding check_obfsproxy_patterns_iff .
  with obfuscated_iff_longer_than_100 [OF a decode_bytes101, of no_extractor] a decode_bytes101
  show ?thesis by blast
qed

text \<open>
  Claim C8 as stated fails: a prefix of exactly 100 pairwise different bytes without
  markers meets the three conditions of the specification, and the classifier does
  not set \<open>obfsproxy_candidate\<close>.
\<close>

theorem obfuscated_not_at_100:
  "payload_sample flow100 = Some (b64encode bytes100)
   \<and> b64decode (b64encode bytes100) = Some bytes100
   \<and> length bytes100 = 100
   \<and> spec_R5 bytes100
   \<and> \<not> obfsproxy_candidate (fst (analyze_flow no_extractor flow100))"
proof -
  have p: "payload_sample flow100 = Some (b64encode bytes100)"
    and o: "\<not> obfsproxy_candidate flow100"
    by (simp_all add: flow100_def fresh_flow_def)
  have l: "length bytes100 = 100"
    by (simp add: bytes100_def)
  have s: "spec_R5 bytes100"
    by code_simp
  have "\<not> obfsproxy_candidate (fst (analyze_flow no_extractor flow100))"
    by (simp add: analyze_flow_obfs p o decode_bytes100 check_bytes100)
  with p decode_bytes100 l s show ?thesis by simp
qed

section \<open>Loading a directory snapshot\<close>

lemma fold_max_ge: "a \<le> fold max ids (a::int)"
  by (induction ids arbitrary: a) (auto intro: order_trans [OF max.cobounded2])

lemma fold_max_mem: "x \<in> set ids \<Longrightarrow> x \<le> fold max ids (a::int)"
proof (induction ids arbitrary: a)
  case Nil
  then show ?case by simp
next
  case (Cons y ys)
  show ?case
  proof (cases "x = y")
    case True
    have "y \<le> max y a" by simp
    also have "\<dots> \<le> fold max ys (max y a)" by (rule fold_max_ge)
    finally show ?thesis using True by simp
  next
    case False
    with Cons show ?thesis by simp
  qed
qed

lemma next_id_fresh: "next_id ids \<notin> set ids"
proof
  assume "next_id ids \<in> set ids"
  then have "next_id ids \<le> fold max ids 0" by (rule fold_max_mem)
  then show False by (simp add: next_id_def)
qed

lemma query_first_None_iff: "query_first p rows = None \<longleftrightarrow> (\<forall>x \<in> set rows. \<not> p x)"
  by (auto simp: query_first_def find_None_iff)

lemma find_SomeD: "find p xs = Some x \<Longrightarrow> x \<in> set xs \<and> p x"
  by (induction xs) (auto split: if_splits)

lemma find_distinct_key:
  "distinct (map f ys) \<Longrightarrow> x \<in> set ys \<Longrightarrow> find (\<lambda>y. f y = f x) ys = Some x"
  by (induction ys) force+

lemma find_prefix_keeps:
  assumes "prefix xs ys" and "distinct (map f ys)" and "x \<in> set xs"
  shows "find (\<lambda>y. f y = f x) ys = Some x"
proof -
  from assms(1,3) have "x \<in> set ys" by (auto simp: prefix_def)
  with assms(2) show ?thesis by (rule find_distinct_key)
qed

lemma load_loop_prefix:
  "load_loop rows ips snap = ((rows', ips'), r) \<Longrightarrow> prefix rows rows'"
proof (induction snap arbitrary: rows ips)
  case Nil
  then show ?case by simp
next
  case (Cons nd rest)
  show ?case
  proof (cases "query_first (\<lambda>n. ip_address n = nd_ip_address nd) rows")
    case (Some existing)
    with Cons show ?thesis by simp
  next
    case None
    show ?thesis
    proof (cases "fingerprint_clash rows nd")
      case True
      with None Cons.prems show ?thesis by simp
    next
      case False
      with None Cons.prems
      have "prefix (rows @ [new_tor_node (next_id (map nid rows)) nd]) rows'"
        by (auto dest: Cons.IH)
      then show ?thesis by (rule append_prefixD)
    qed
  qed
qed

lemma load_loop_distinct:
  "load_loop rows ips snap = ((rows', ips'), r) \<Longrightarrow> distinct (map ip_address rows)
     \<Longrightarrow> distinct (map ip_address rows')"
proof (induction snap arbitrary: rows ips)
  case Nil
  then show ?case by simp
next
  case (Cons nd rest)
  show ?case
  proof (cases "query_first (\<lambda>n. ip_address n = nd_ip_address nd) rows")
    case (Some existing)
    with Cons show ?thesis by simp
  next
    case None
    then have fresh: "nd_ip_address nd \<notin> set (map ip_address rows)"
      by (auto simp: query_first_None_iff)
    show ?thesis
    proof (cases "fingerprint_clash rows nd")
      case True
      with None Cons.prems show ?thesis by simp
    next
      case False
      have "distinct (map ip_address (rows @ [new_tor_node (next_id (map nid rows)) nd]))"
        using fresh Cons.prems(2) by (simp add: new_tor_node_def)
      with False None Cons.prems(1) show ?thesis
        by (auto dest: Cons.IH)
    qed
  qed
qed

lemma load_loop_covers:
  "load_loop rows ips snap = ((rows', ips'), None)
     \<Longrightarrow> set (map nd_ip_address snap) \<subseteq> set (map ip_address rows')"
proof (induction snap arbitrary: rows ips)
  case Nil
  then show ?case by simp
next
  case (Cons nd rest)
  show ?case
  proof (cases "query_first (\<lambda>n. ip_address n = nd_ip_address nd) rows")
    case (Some existing)
    then have "existing \<in> set rows \<and> ip_address existing = nd_ip_address nd"
      by (auto simp: query_first_def dest!: find_SomeD)
    then have "nd_ip_address nd \<in> set (map ip_address rows)"
      by (metis image_eqI list.set_map)
    moreover from Some Cons.prems have run: "load_loop rows ips rest = ((rows', ips'), None)"
      by simp
    then have "set rows \<subseteq> set rows'"
      by (auto dest!: load_loop_prefix simp: prefix_def)
    ultimately show ?thesis using Cons.IH [OF run] by auto
  next
    case None
    show ?thesis
    proof (cases "fingerprint_clash rows nd")
      case True
      with None Cons.prems show ?thesis by simp
    next
      case False
      let ?rows1 = "rows @ [new_tor_node (next_id (map nid rows)) nd]"
      from False None Cons.prems
      have run: "load_loop ?rows1 (insert (nd_ip_address nd) ips) rest = ((rows', ips'), None)"
        by simp
      then have "set ?rows1 \<subseteq> set rows'"
        by (auto dest!: load_loop_prefix simp: prefix_def)
      then have "nd_ip_address nd \<in> set (map ip_address rows')"
        by (force simp: new_tor_node_def)
      with Cons.IH [OF run] show ?thesis by simp
    qed
  qed
qed

lemma load_loop_new_rows:
  "load_loop rows ips snap = ((rows', ips'), r)
     \<Longrightarrow> \<forall>n \<in> set (drop (length rows) rows').
           \<exists>i nd. nd \<in> set snap \<and> n = new_tor_node i nd
             \<and> nd_ip_address nd \<notin> set (map ip_address rows)"
proof (induction snap arbitrary: rows ips)
  case Nil
  then show ?case by simp
next
  case (Cons nd rest)
  show ?case
  proof (cases "query_first (\<lambda>n. ip_address n = nd_ip_address nd) rows")
    case (Some existing)
    with Cons.prems have "load_loop rows ips rest = ((rows', ips'), r)" by simp
    from Cons.IH [OF this] show ?thesis by fastforce
  next
    case None
    then have fresh: "nd_ip_address nd \<notin> set (map ip_address rows)"
      by (auto simp: query_first_None_iff)
    show ?thesis
    proof (cases "fingerprint_clash rows nd")
      case True
      with None Cons.prems show ?thesis by simp
    next
      case False
      let ?new = "new_tor_node (next_id (map nid rows)) nd"
      from False None Cons.prems
      have run: "load_loop (rows @ [?new]) (insert (nd_ip_address nd) ips) rest
          = ((rows', ips'), r)"
        by simp
      from load_loop_prefix [OF run] obtain more where rows': "rows' = (rows @ [?new]) @ more"
        by (auto simp: prefix_def)
      have d: "drop (length rows) rows' = ?new # drop (length (rows @ [?new])) rows'"
        unfolding rows' by simp
      have "\<forall>n \<in> set (drop (length (rows @ [?new])) rows').
           \<exists>i nd'. nd' \<in> set (nd # rest) \<and> n = new_tor_node i nd'
             \<and> nd_ip_address nd' \<notin> set (map ip_address rows)"
        using Cons.IH [OF run] by fastforce
      moreover have "\<exists>i nd'. nd' \<in> set (nd # rest) \<and> ?new = new_tor_node i nd'
             \<and> nd_ip_address nd' \<notin> set (map ip_address rows)"
        using fresh by auto
      ultimately show ?thesis unfolding d by simp
    qed
  qed
qed

lemma load_tor_nodes_rows:
  "\<exists>rows ips r. load_loop (tbl_tor_nodes st) (tor_node_ips ex) snap = ((rows, ips), r)
     \<and> tbl_tor_nodes (fst (fst (load_tor_nodes st ex snap))) =
         (if r = None then rows else tbl_tor_nodes st)
     \<and> snd (load_tor_nodes st ex snap) = r"
  by (cases "load_loop (tbl_tor_nodes st) (tor_node_ips ex) snap")
     (auto simp: load_tor_nodes_def tables_get_session session_close_def get_session_def Let_def
           split: option.splits prod.splits)

text \<open>
  Claim C5, as the code has it. Loading a snapshot is insert-if-absent by address. The
  rows present before the load are a prefix of the rows after it, so every existing
  record keeps its primary key and all its attribute fields, whatever the snapshot
  says about its address; the record found under an existing address is the old one;
  addresses remain unique; after a load that did not fail every address of the
  snapshot is present; and every row that the load adds is made of a snapshot entry
  whose address was not in the table.
\<close>

theorem load_is_insert_if_absent:
  assumes "distinct (map ip_address (tbl_tor_nodes st))"
  shows "prefix (tbl_tor_nodes st) (tbl_tor_nodes (fst (fst (load_tor_nodes st ex snap))))
    \<and> distinct (map ip_address (tbl_tor_nodes (fst (fst (load_tor_nodes st ex snap)))))
    \<and> (\<forall>n \<in> set (tbl_tor_nodes st).
          query_first (\<lambda>m. ip_address m = ip_address n)
            (tbl_tor_nodes (fst (fst (load_tor_nodes st ex snap)))) = Some n)
    \<and> (snd (load_tor_nodes st ex snap) = None \<longrightarrow>
          set (map nd_ip_address snap)
            \<subseteq> set (map ip_address (tbl_tor_nodes (fst (fst (load_tor_nodes st ex snap))))))
    \<and> (\<forall>n \<in> set (drop (length (tbl_tor_nodes st))
                       (tbl_tor_nodes (fst (fst (load_tor_nodes st ex snap))))).
          \<exists>i nd. nd \<in> set snap \<and> n = new_tor_node i nd
            \<and> nd_ip_address nd \<notin> set (map ip_address (tbl_tor_nodes st)))"
proof -
  obtain rows ips r where
    run: "load_loop (tbl_tor_nodes st) (tor_node_ips ex) snap = ((rows, ips), r)"
    and tbl: "tbl_tor_nodes (fst (fst (load_tor_nodes st ex snap))) =
         (if r = None then rows else tbl_tor_nodes st)"
    and res: "snd (load_tor_nodes st ex snap) = r"
    using load_tor_nodes_rows by blast
  let ?after = "tbl_tor_nodes (fst (fst (load_tor_nodes st ex snap)))"
  have p: "prefix (tbl_tor_nodes st) ?after"
    using load_loop_prefix [OF run] tbl by simp
  have d: "distinct (map ip_address ?after)"
    using load_loop_distinct [OF run assms] assms tbl by simp
  have k: "\<forall>n \<in> set (tbl_tor_nodes st).
          query_first (\<lambda>m. ip_address m = ip_address n) ?after = Some n"
    using find_prefix_keeps [OF p d] by (simp add: query_first_def)
  have c: "snd (load_tor_nodes st ex snap) = None \<longrightarrow>
          set (map nd_ip_address snap) \<subseteq> set (map ip_address ?after)"
    using load_loop_covers [of "tbl_tor_nodes st" "tor_node_ips ex" snap rows ips] run tbl res
    by auto
  have n: "\<forall>n \<in> set (drop (length (tbl_tor_nodes st)) ?after).
          \<exists>i nd. nd \<in> set snap \<and> n = new_tor_node i nd
            \<and> nd_ip_address nd \<notin> set (map ip_address (tbl_tor_nodes st))"
    using load_loop_new_rows [OF run] tbl by (cases "r = None") simp_all
  from p d k c n show ?thesis by blast
qed

lemma load_new_snapshot:
  "load_tor_nodes old_store no_extractor new_snapshot =
     ((old_store\<lparr>tbl_tor_nodes :=
         [old_node,
          \<lparr>nid = 8, ip_address = ''185.220.101.2'', port = 9001, fingerprint = None,
           nickname = None, flags = Some [], country_code = None, asn = None,
           bandwidth = None\<rparr>]\<rparr>,
       \<lparr>tor_node_ips = {''185.220.101.2''}\<rparr>), None)"
  by code_simp

theorem load_is_insert_if_absent_witness:
  "distinct (map ip_address (tbl_tor_nodes old_store))
   \<and> query_first (\<lambda>m. ip_address m = ''185.220.101.1'')
       (tbl_tor_nodes (fst (fst (load_tor_nodes old_store no_extractor new_snapshot))))
     = Some old_node
   \<and> distinct (map ip_address
       (tbl_tor_nodes (fst (fst (load_tor_nodes old_store no_extractor new_snapshot)))))"
proof -
  have d: "distinct (map ip_address (tbl_tor_nodes old_store))"
    by (simp add: old_store_def empty_store_def)
  have m: "old_node \<in> set (tbl_tor_nodes old_store)"
    by (simp add: old_store_def empty_store_def)
  have a: "ip_address old_node = ''185.220.101.1''"
    by (simp add: old_node_def)
  from load_is_insert_if_absent [OF d, of no_extractor new_snapshot] m a d
  show ?thesis by auto
qed

text \<open>
  Claim C5 as stated fails: the store holds 185.220.101.1 with port 9001 and nickname
  OldRelay, the snapshot lists the address with port 443 and nickname NewRelay, and
  after the load the record still has port 9001 and nickname OldRelay.
\<close>

theorem load_does_not_overwrite:
  "nd_ip_address (hd new_snapshot) = ip_address old_node
   \<and> nd_port (hd new_snapshot) = Some 443
   \<and> query_first (\<lambda>m. ip_address m = ''185.220.101.1'')
       (tbl_tor_nodes (fst (fst (load_tor_nodes old_store no_extractor new_snapshot))))
     = Some old_node
   \<and> port old_node = 9001
   \<and> nickname old_node = Some ''OldRelay''"
proof -
  have "query_first (\<lambda>m. ip_address m = ''185.220.101.1'')
          (tbl_tor_nodes (fst (fst (load_tor_nodes old_store no_extractor new_snapshot))))
        = Some old_node"
    unfolding load_new_snapshot by (simp add: query_first_def old_node_def)
  moreover have "nd_ip_address (hd new_snapshot) = ip_address old_node"
    and "nd_port (hd new_snapshot) = Some 443"
    by (simp_all add: new_snapshot_def old_node_def)
  moreover have "port old_node = 9001" and "nickname old_node = Some ''OldRelay''"
    by (simp_all add: old_node_def)
  ultimately show ?thesis by simp
qed

section \<open>The private-address check on a malformed address\<close>


section \<open>Streaming ingestion with periodic flushes\<close>

text \<open>
  Claim C1 fails on the code. A capture of one packet, hence one 5-tuple, ingested in
  streaming mode with the batch-size hint 1 into an empty store leaves two flow rows
  whose packet counts sum to 2: the periodic flush writes the accumulator, the
  dictionary is not cleared, and the final flush writes it again. In eager mode the
  same capture leaves one row.
\<close>

theorem streaming_flush_duplicates:
  "map pkt_count
     (tbl_flows (snd (fst (ingest_pcap utc ingestor_batch_1 empty_store [one_packet] True))))
     = [1, 1]
   \<and> length (flows (fst (fst (ingest_pcap utc ingestor_batch_1 empty_store [one_packet] True))))
     = 1
   \<and> map pkt_count
     (tbl_flows (snd (fst (ingest_pcap utc ingestor_batch_1 empty_store [one_packet] False))))
     = [1]"
  by code_simp

section \<open>Base64: decoding what was encoded\<close>

lemma index_of_nth: "distinct xs \<Longrightarrow> i < length xs \<Longrightarrow> index_of (xs ! i) xs = Some i"
proof (induction xs arbitrary: i)
  case Nil
  then show ?case by simp
next
  case (Cons x xs)
  show ?case
  proof (cases i)
    case 0
    then show ?thesis by simp
  next
    case (Suc j)
    with Cons.prems have "xs ! j \<in> set xs" and "x \<notin> set xs" by auto
    then have "xs ! j \<noteq> x" by auto
    with Suc Cons show ?thesis by simp
  qed
qed

lemma b64_alphabet_props:
  "distinct b64_alphabet" "length b64_alphabet = 64" "CHR ''='' \<notin> set b64_alphabet"
  "list_all (\<lambda>c. byte_of c < 128) b64_alphabet"
  by (simp_all add: b64_alphabet_def byte_of_def)

lemma b64_index_char: "i < 64 \<Longrightarrow> b64_index (b64_char i) = Some i"
  by (simp add: b64_index_def b64_char_def index_of_nth b64_alphabet_props)

lemma b64_char_mem: "b64_char i \<in> set b64_alphabet"
  by (simp add: b64_char_def b64_alphabet_props)

lemma b64_char_not_pad: "b64_char i \<noteq> CHR ''=''"
  using b64_char_mem [of i] b64_alphabet_props(3) by metis

lemma b64_char_ascii: "\<not> byte_of (b64_char i) \<ge> 128"
  using b64_char_mem [of i] b64_alphabet_props(4) by (auto simp: list_all_iff)

lemma a2b_quad:
  assumes "i0 < 64" "i1 < 64" "i2 < 64" "i3 < 64"
  shows "a2b_base64 (b64_char i0 # b64_char i1 # b64_char i2 # b64_char i3 # rest) 0 0 0 out =
    a2b_base64 rest 0 0 0
      (out @ [chr_byte (i0 * 4 + i1 div 16), chr_byte (i1 mod 16 * 16 + i2 div 4),
              chr_byte (i2 mod 4 * 64 + i3)])"
  using assms by (simp add: b64_char_not_pad b64_index_char)

lemma a2b_triple:
  assumes "i0 < 64" "i1 < 64" "i2 < 64"
  shows "a2b_base64 [b64_char i0, b64_char i1, b64_char i2, CHR ''=''] 0 0 0 out =
    Some (out @ [chr_byte (i0 * 4 + i1 div 16), chr_byte (i1 mod 16 * 16 + i2 div 4)])"
  using assms by (simp add: b64_char_not_pad b64_index_char)

lemma a2b_pair:
  assumes "i0 < 64" "i1 < 64"
  shows "a2b_base64 [b64_char i0, b64_char i1, CHR ''='', CHR ''=''] 0 0 0 out =
    Some (out @ [chr_byte (i0 * 4 + i1 div 16)])"
  using assms by (simp add: b64_char_not_pad b64_index_char)

lemma byte_of_less: "byte_of c < 256"
  by (simp add: byte_of_def)

lemma chr_byte_of: "chr_byte (byte_of c) = c"
  by (simp add: chr_byte_def byte_of_def)

lemma div_mod_group:
  fixes a b n :: nat
  assumes "b < n"
  shows "(a * n + b) div n = a" and "(a * n + b) mod n = b"
  using assms by simp_all

lemma sextets:
  fixes x y z :: nat
  assumes "x < 256" "y < 256" "z < 256"
  shows "x div 4 < 64" "x mod 4 * 16 < 64" "x mod 4 * 16 + y div 16 < 64" "y mod 16 * 4 < 64"
    "y mod 16 * 4 + z div 64 < 64" "z mod 64 < 64"
    "x div 4 * 4 + (x mod 4 * 16 + y div 16) div 16 = x"
    "x div 4 * 4 + (x mod 4 * 16) div 16 = x"
    "(x mod 4 * 16 + y div 16) mod 16 * 16 + (y mod 16 * 4 + z div 64) div 4 = y"
    "(x mod 4 * 16 + y div 16) mod 16 * 16 + (y mod 16 * 4) div 4 = y"
    "(y mod 16 * 4 + z div 64) mod 4 * 64 + z mod 64 = z"
proof -
  have x4: "x mod 4 < 4" and y16: "y mod 16 < 16" by simp_all
  have yd: "y div 16 < 16" and zd: "z div 64 < 4" and xd: "x div 4 < 64"
    using assms by (simp_all add: less_mult_imp_div_less)
  show "x div 4 < 64" by (rule xd)
  show "x mod 4 * 16 < 64" using x4 by linarith
  show "x mod 4 * 16 + y div 16 < 64" using x4 yd by linarith
  show "y mod 16 * 4 < 64" using y16 by linarith
  show "y mod 16 * 4 + z div 64 < 64" using y16 zd by linarith
  show "z mod 64 < 64" by simp
  show "x div 4 * 4 + (x mod 4 * 16 + y div 16) div 16 = x"
    by (simp only: div_mod_group(1) [OF yd] div_mult_mod_eq)
  show "x div 4 * 4 + (x mod 4 * 16) div 16 = x"
    by simp
  show "(x mod 4 * 16 + y div 16) mod 16 * 16 + (y mod 16 * 4 + z div 64) div 4 = y"
    by (simp only: div_mod_group(2) [OF yd] div_mod_group(1) [OF zd] div_mult_mod_eq)
  have "(y mod 16 * 4) div 4 = y mod 16" by simp
  then show "(x mod 4 * 16 + y div 16) mod 16 * 16 + (y mod 16 * 4) div 4 = y"
    by (simp only: div_mod_group(2) [OF yd] div_mult_mod_eq)
  show "(y mod 16 * 4 + z div 64) mod 4 * 64 + z mod 64 = z"
    by (simp only: div_mod_group(2) [OF zd] div_mult_mod_eq)
qed

lemma a2b_encode: "a2b_base64 (b64encode s) 0 0 0 out = Some (out @ s)"
proof (induction s arbitrary: out rule: b64encode.induct)
  case 1
  then show ?case by simp
next
  case (2 a)
  note b = byte_of_less [of a]
  have "a2b_base64 (b64encode [a]) 0 0 0 out =
      Some (out @ [chr_byte (byte_of a div 4 * 4 + (byte_of a mod 4 * 16) div 16)])"
    unfolding b64encode.simps Let_def by (rule a2b_pair [OF sextets(1,2) [OF b b b]])
  then show ?case
    by (simp only: sextets [OF b b b] chr_byte_of)
next
  case (3 a b)
  note x = byte_of_less [of a] and y = byte_of_less [of b]
  have "a2b_base64 (b64encode [a, b]) 0 0 0 out =
      Some (out @ [chr_byte (byte_of a div 4 * 4 + (byte_of a mod 4 * 16 + byte_of b div 16) div 16),
                   chr_byte ((byte_of a mod 4 * 16 + byte_of b div 16) mod 16 * 16
                             + (byte_of b mod 16 * 4) div 4)])"
    unfolding b64encode.simps Let_def by (rule a2b_triple [OF sextets(1,3,4) [OF x y y]])
  then show ?case
    by (simp only: sextets [OF x y y] chr_byte_of)
next
  case (4 a b c rest)
  note x = byte_of_less [of a] and y = byte_of_less [of b] and z = byte_of_less [of c]
  have "a2b_base64 (b64encode (a # b # c # rest)) 0 0 0 out =
      a2b_base64 (b64encode rest) 0 0 0
        (out @ [chr_byte (byte_of a div 4 * 4 + (byte_of a mod 4 * 16 + byte_of b div 16) div 16),
                chr_byte ((byte_of a mod 4 * 16 + byte_of b div 16) mod 16 * 16
                          + (byte_of b mod 16 * 4 + byte_of c div 64) div 4),
                chr_byte ((byte_of b mod 16 * 4 + byte_of c div 64) mod 4 * 64
                          + byte_of c mod 64)])"
    unfolding b64encode.simps Let_def append_Cons append_Nil
    by (rule a2b_quad [OF sextets(1,3,5,6) [OF x y z]])
  also have "\<dots> = a2b_base64 (b64encode rest) 0 0 0 (out @ [a, b, c])"
    by (simp only: sextets [OF x y z] chr_byte_of)
  also have "\<dots> = Some ((out @ [a, b, c]) @ rest)"
    by (rule "4.IH" [OF refl refl refl])
  finally show ?case by simp
qed

lemma encode_ascii: "\<not> list_ex (\<lambda>c. byte_of c \<ge> 128) (b64encode s)"
  by (induction s rule: b64encode.induct)
     (simp_all add: Let_def b64_char_ascii, simp_all add: byte_of_def)

lemma b64_roundtrip: "b64decode (b64encode s) = Some s"
  using a2b_encode [of s "[]"] by (simp add: b64decode_def encode_ascii)

lemma b64encode_Nil_iff: "b64encode s = [] \<longleftrightarrow> s = []"
  by (cases s rule: b64encode.cases) (simp_all add: Let_def)

section \<open>Ingestion: what a run writes\<close>

subsection \<open>One packet\<close>

lemma update_ts_end: "r_ts_end (update zone r t payload n) = fromtimestamp zone t"
  by (simp add: update_def Let_def split: option.split)

lemma update_ts_start: "r_ts_start (update zone r t payload n) = r_ts_start r"
  by (simp add: update_def Let_def split: option.split)

lemma update_acc_ok:
  assumes "1 \<le> n" and "0 \<le> r_pkt_count r" and "r_pkt_count r \<le> r_byte_count r"
    and "sample_ok r"
  shows "acc_ok (update zone r t payload n)"
  using assms
  by (auto simp: acc_ok_def sample_ok_def update_def Let_def split: option.splits)

lemma dict_set_subset: "set (dict_set k v xs) \<subseteq> insert (k, v) (set xs)"
  by (induction xs) (auto split: if_splits)

lemma process_packet_eq:
  "process_packet zone ing p =
     (case packet_key p of
        None \<Rightarrow> (ing, None)
      | Some k \<Rightarrow>
          (ing\<lparr>flows :=
             dict_set k
               (update zone (case map_of (flows ing) k of
                          None \<Rightarrow> FlowRecord_init zone k (pkt_time p)
                        | Some r0 \<Rightarrow> r0)
                  (pkt_time p) (pkt_raw p) (pkt_len p))
               (flows ing)\<rparr>, Some k))"
  by (simp add: process_packet_def packet_key_def Let_def split: option.split prod.split)

lemma process_packet_cases:
  "fst (process_packet zone ing p) = ing
   \<or> (\<exists>k r. fst (process_packet zone ing p) =
              ing\<lparr>flows := dict_set k (update zone r (pkt_time p) (pkt_raw p) (pkt_len p)) (flows ing)\<rparr>
            \<and> (r = FlowRecord_init zone k (pkt_time p) \<or> (k, r) \<in> set (flows ing)))"
proof (cases "packet_key p")
  case None
  then show ?thesis by (simp add: process_packet_eq)
next
  case (Some k)
  show ?thesis
  proof (cases "map_of (flows ing) k")
    case None
    with Some show ?thesis by (simp add: process_packet_eq) blast
  next
    case (Some r0)
    then have "(k, r0) \<in> set (flows ing)" by (rule map_of_SomeD)
    with Some \<open>packet_key p = Some k\<close> show ?thesis
      by (simp add: process_packet_eq) blast
  qed
qed

lemma process_packet_skip: "\<not> parseable p \<Longrightarrow> fst (process_packet zone ing p) = ing"
  by (simp add: parseable_def process_packet_eq)

lemma process_packet_acc_ok:
  assumes "parseable p \<Longrightarrow> 1 \<le> pkt_len p" and "\<forall>(k, r) \<in> set (flows ing). acc_ok r"
  shows "\<forall>(k, r) \<in> set (flows (fst (process_packet zone ing p))). acc_ok r"
proof (cases "parseable p")
  case False
  with assms(2) show ?thesis by (simp add: process_packet_skip)
next
  case True
  then have len: "1 \<le> pkt_len p" by (rule assms(1))
  from process_packet_cases [of zone ing p] consider
    (skip) "fst (process_packet zone ing p) = ing"
  | (upd) k r where "fst (process_packet zone ing p) =
        ing\<lparr>flows := dict_set k (update zone r (pkt_time p) (pkt_raw p) (pkt_len p)) (flows ing)\<rparr>"
      and "r = FlowRecord_init zone k (pkt_time p) \<or> (k, r) \<in> set (flows ing)"
    by blast
  then show ?thesis
  proof cases
    case skip
    with assms show ?thesis by simp
  next
    case upd
    have "0 \<le> r_pkt_count r \<and> r_pkt_count r \<le> r_byte_count r \<and> sample_ok r"
      using upd(2) assms(2) by (auto simp: FlowRecord_init_def sample_ok_def acc_ok_def)
    then have "acc_ok (update zone r (pkt_time p) (pkt_raw p) (pkt_len p))"
      using len by (simp add: update_acc_ok)
    with assms(2) dict_set_subset [of k _ "flows ing"] show ?thesis
      unfolding upd(1) by auto
  qed
qed

lemma process_packet_ts:
  assumes "t \<le> fromtimestamp zone (pkt_time p)"
    and "\<forall>(k, r) \<in> set (flows ing). r_ts_start r \<le> r_ts_end r \<and> r_ts_end r \<le> t"
  shows "\<forall>(k, r) \<in> set (flows (fst (process_packet zone ing p))).
           r_ts_start r \<le> r_ts_end r \<and> r_ts_end r \<le> fromtimestamp zone (pkt_time p)"
proof -
  let ?t = "fromtimestamp zone (pkt_time p)"
  have old: "\<forall>(k, r) \<in> set (flows ing). r_ts_start r \<le> r_ts_end r \<and> r_ts_end r \<le> ?t"
    using assms by fastforce
  from process_packet_cases [of zone ing p] consider
    (skip) "fst (process_packet zone ing p) = ing"
  | (upd) k r where "fst (process_packet zone ing p) =
        ing\<lparr>flows := dict_set k (update zone r (pkt_time p) (pkt_raw p) (pkt_len p)) (flows ing)\<rparr>"
      and "r = FlowRecord_init zone k (pkt_time p) \<or> (k, r) \<in> set (flows ing)"
    by blast
  then show ?thesis
  proof cases
    case skip
    with old show ?thesis by simp
  next
    case upd
    have "r_ts_start r \<le> ?t"
      using upd(2) old by (auto simp: FlowRecord_init_def)
    then have new: "r_ts_start (update zone r (pkt_time p) (pkt_raw p) (pkt_len p))
        \<le> r_ts_end (update zone r (pkt_time p) (pkt_raw p) (pkt_len p))
        \<and> r_ts_end (update zone r (pkt_time p) (pkt_raw p) (pkt_len p)) \<le> ?t"
      by (simp add: update_ts_end update_ts_start)
    from new old dict_set_subset [of k _ "flows ing"] show ?thesis
      unfolding upd(1) by auto
  qed
qed

subsection \<open>Flushing\<close>

lemma bulk_save_append:
  "\<exists>new. bulk_save rows rs = rows @ new \<and> length new = length rs
     \<and> (\<forall>m \<in> set new. \<exists>i r. r \<in> set rs \<and> m = to_flow_model i r)"
proof (induction rs arbitrary: rows)
  case Nil
  then show ?case by simp
next
  case (Cons r rest)
  let ?m = "to_flow_model (next_id (map fid rows)) r"
  from Cons [of "rows @ [?m]"] obtain new where
    "bulk_save (rows @ [?m]) rest = (rows @ [?m]) @ new"
    and "length new = length rest"
    and "\<forall>m \<in> set new. \<exists>i r. r \<in> set rest \<and> m = to_flow_model i r" by blast
  then have "bulk_save rows (r # rest) = rows @ (?m # new)"
    and "length (?m # new) = length (r # rest)"
    and "\<forall>m \<in> set (?m # new). \<exists>i r'. r' \<in> set (r # rest) \<and> m = to_flow_model i r'"
    by (simp, simp, fastforce)
  then show ?case by blast
qed

lemma flush_flows_rows:
  "\<exists>new. tbl_flows (flush_flows ing st) = tbl_flows st @ new
     \<and> (\<forall>m \<in> set new. \<exists>i r. r \<in> snd ` set (flows ing) \<and> m = to_flow_model i r)"
proof (cases "flows ing = []")
  case True
  then show ?thesis by (simp add: flush_flows_def)
next
  case False
  from bulk_save_append [of "tbl_flows st" "map snd (flows ing)"] obtain new where
    eq: "bulk_save (tbl_flows st) (map snd (flows ing)) = tbl_flows st @ new"
    and rel: "\<forall>m \<in> set new. \<exists>i r. r \<in> set (map snd (flows ing)) \<and> m = to_flow_model i r"
    by blast
  from rel have "\<forall>m \<in> set new. \<exists>i r. r \<in> snd ` set (flows ing) \<and> m = to_flow_model i r"
    by simp
  with eq False show ?thesis
    by (simp add: flush_flows_def Let_def session_close_def tables_get_session)
qed

lemma to_flow_model_row_ok: "acc_ok r \<Longrightarrow> row_ok (to_flow_model i r)"
  by (cases "key r")
     (auto simp: acc_ok_def sample_ok_def row_ok_def to_flow_model_def b64_roundtrip
           split: option.splits)

lemma to_flow_model_ts: "r_ts_start r \<le> r_ts_end r \<Longrightarrow> ts_ordered (to_flow_model i r)"
  by (cases "key r") (simp add: ts_ordered_def to_flow_model_def)

subsection \<open>The loops\<close>

lemma stream_loop_inv:
  assumes step: "\<And>ing p ps. Inv (p # ps) ing \<Longrightarrow> Inv ps (fst (process_packet zone ing p))"
    and rows: "\<And>ing ps r. Inv ps ing \<Longrightarrow> r \<in> snd ` set (flows ing) \<Longrightarrow> Q r"
    and inv: "Inv ps ing"
  shows "Inv [] (fst (stream_loop zone ing st ps))
    \<and> (\<exists>new. tbl_flows (snd (stream_loop zone ing st ps)) = tbl_flows st @ new
          \<and> (\<forall>m \<in> set new. \<exists>i r. Q r \<and> m = to_flow_model i r))"
  using inv
proof (induction ps arbitrary: ing st)
  case Nil
  then show ?case by simp
next
  case (Cons p ps)
  let ?ing = "fst (process_packet zone ing p)"
  let ?st = "if int (length (flows ?ing)) \<ge> batch_size ?ing then flush_flows ?ing st else st"
  have inv': "Inv ps ?ing" using Cons.prems by (rule step)
  have "\<exists>new. tbl_flows ?st = tbl_flows st @ new
          \<and> (\<forall>m \<in> set new. \<exists>i r. Q r \<and> m = to_flow_model i r)"
  proof (cases "int (length (flows ?ing)) \<ge> batch_size ?ing")
    case True
    from flush_flows_rows [of ?ing st] obtain new where
      "tbl_flows (flush_flows ?ing st) = tbl_flows st @ new"
      and "\<forall>m \<in> set new. \<exists>i r. r \<in> snd ` set (flows ?ing) \<and> m = to_flow_model i r" by blast
    with True rows [OF inv'] show ?thesis by fastforce
  next
    case False
    then show ?thesis by simp
  qed
  then obtain new1 where n1: "tbl_flows ?st = tbl_flows st @ new1"
    and q1: "\<forall>m \<in> set new1. \<exists>i r. Q r \<and> m = to_flow_model i r" by blast
  from Cons.IH [OF inv', of ?st] obtain new2 where
    i2: "Inv [] (fst (stream_loop zone ?ing ?st ps))"
    and n2: "tbl_flows (snd (stream_loop zone ?ing ?st ps)) = tbl_flows ?st @ new2"
    and q2: "\<forall>m \<in> set new2. \<exists>i r. Q r \<and> m = to_flow_model i r" by blast
  have "tbl_flows (snd (stream_loop zone ing st (p # ps))) = tbl_flows st @ (new1 @ new2)"
    using n1 n2 by (simp add: Let_def)
  moreover have "\<forall>m \<in> set (new1 @ new2). \<exists>i r. Q r \<and> m = to_flow_model i r"
    using q1 q2 by auto
  moreover have "Inv [] (fst (stream_loop zone ing st (p # ps)))"
    using i2 by (simp add: Let_def)
  ultimately show ?case by blast
qed

lemma eager_loop_inv:
  assumes step: "\<And>ing p ps. Inv (p # ps) ing \<Longrightarrow> Inv ps (fst (process_packet zone ing p))"
    and inv: "Inv ps ing"
  shows "Inv [] (eager_loop zone ing ps)"
  using inv by (induction ps arbitrary: ing) (auto intro: step)

lemma ingest_pcap_inv:
  assumes step: "\<And>ing p ps. Inv (p # ps) ing \<Longrightarrow> Inv ps (fst (process_packet zone ing p))"
    and rows: "\<And>ing ps r. Inv ps ing \<Longrightarrow> r \<in> snd ` set (flows ing) \<Longrightarrow> Q r"
    and inv: "Inv packets (ing0\<lparr>flows := []\<rparr>)"
  shows "\<exists>new. tbl_flows (snd (fst (ingest_pcap zone ing0 st packets streaming))) = tbl_flows st @ new
          \<and> (\<forall>m \<in> set new. \<exists>i r. Q r \<and> m = to_flow_model i r)"
proof -
  let ?ing = "ing0\<lparr>flows := []\<rparr>"
  let ?pair = "if streaming then stream_loop zone ?ing st packets else (eager_loop zone ?ing packets, st)"
  have "Inv [] (fst ?pair)
    \<and> (\<exists>new. tbl_flows (snd ?pair) = tbl_flows st @ new
          \<and> (\<forall>m \<in> set new. \<exists>i r. Q r \<and> m = to_flow_model i r))"
  proof (cases streaming)
    case True
    with stream_loop_inv [where Inv = Inv and Q = Q and zone = zone and ps = packets
        and ing = "ing0\<lparr>flows := []\<rparr>" and st = st, OF step rows inv]
    show ?thesis by simp
  next
    case False
    with eager_loop_inv [where Inv = Inv and zone = zone and ps = packets
        and ing = "ing0\<lparr>flows := []\<rparr>", OF step inv]
    show ?thesis by simp
  qed
  then obtain new1 where i1: "Inv [] (fst ?pair)"
    and n1: "tbl_flows (snd ?pair) = tbl_flows st @ new1"
    and q1: "\<forall>m \<in> set new1. \<exists>i r. Q r \<and> m = to_flow_model i r" by blast
  from flush_flows_rows [of "fst ?pair" "snd ?pair"] obtain new2 where
    n2: "tbl_flows (flush_flows (fst ?pair) (snd ?pair)) = tbl_flows (snd ?pair) @ new2"
    and r2: "\<forall>m \<in> set new2. \<exists>i r. r \<in> snd ` set (flows (fst ?pair)) \<and> m = to_flow_model i r"
    by blast
  from r2 rows [OF i1] have q2: "\<forall>m \<in> set new2. \<exists>i r. Q r \<and> m = to_flow_model i r"
    by fastforce
  have "snd (fst (ingest_pcap zone ing0 st packets streaming)) = flush_flows (fst ?pair) (snd ?pair)"
    by (simp add: ingest_pcap_def Let_def split: prod.splits)
  with n1 n2 have "tbl_flows (snd (fst (ingest_pcap zone ing0 st packets streaming)))
      = tbl_flows st @ (new1 @ new2)" by simp
  moreover from q1 q2 have "\<forall>m \<in> set (new1 @ new2). \<exists>i r. Q r \<and> m = to_flow_model i r"
    by auto
  ultimately show ?thesis by blast
qed

lemma ingest_rows_ok:
  assumes "list_all (\<lambda>p. 1 \<le> pkt_len p) (filter parseable packets)"
  shows "\<exists>new. tbl_flows (snd (fst (ingest_pcap zone ing0 st packets streaming)))
            = tbl_flows st @ new
          \<and> (\<forall>m \<in> set new. \<exists>i r. acc_ok r \<and> m = to_flow_model i r)"
proof (rule ingest_pcap_inv
    [where Inv = "\<lambda>ps (ing :: PcapIngestor). list_all (\<lambda>p. 1 \<le> pkt_len p) (filter parseable ps)
                    \<and> (\<forall>(k, r) \<in> set (flows ing). acc_ok r)"])
  fix ing :: PcapIngestor and p :: packet and ps :: "packet list"
  assume "list_all (\<lambda>p. 1 \<le> pkt_len p) (filter parseable (p # ps))
      \<and> (\<forall>(k, r) \<in> set (flows ing). acc_ok r)"
  then show "list_all (\<lambda>p. 1 \<le> pkt_len p) (filter parseable ps)
      \<and> (\<forall>(k, r) \<in> set (flows (fst (process_packet zone ing p))). acc_ok r)"
    using process_packet_acc_ok [of p ing zone] by (cases "parseable p") simp_all
next
  fix ing :: PcapIngestor and ps :: "packet list" and r :: FlowRecord
  assume "list_all (\<lambda>p. 1 \<le> pkt_len p) (filter parseable ps)
      \<and> (\<forall>(k, r) \<in> set (flows ing). acc_ok r)"
    and "r \<in> snd ` set (flows ing)"
  then show "acc_ok r" by auto
next
  show "list_all (\<lambda>p. 1 \<le> pkt_len p) (filter parseable packets)
      \<and> (\<forall>(k, r) \<in> set (flows (ing0\<lparr>flows := []\<rparr>)). acc_ok r)"
    using assms by simp
qed

lemma local_times_Cons:
  "local_times zone (p # ps) =
     (if parseable p then fromtimestamp zone (pkt_time p) # local_times zone ps
      else local_times zone ps)"
  by (simp add: local_times_def)

lemma ingest_rows_ts:
  assumes "sorted (local_times zone packets)"
  shows "\<exists>new. tbl_flows (snd (fst (ingest_pcap zone ing0 st packets streaming)))
            = tbl_flows st @ new
          \<and> (\<forall>m \<in> set new. \<exists>i r. r_ts_start r \<le> r_ts_end r \<and> m = to_flow_model i r)"
proof (rule ingest_pcap_inv
    [where Inv = "\<lambda>ps (ing :: PcapIngestor). sorted (local_times zone ps)
        \<and> (\<exists>t. (\<forall>u \<in> set (local_times zone ps). t \<le> u)
              \<and> (\<forall>(k, r) \<in> set (flows ing). r_ts_start r \<le> r_ts_end r \<and> r_ts_end r \<le> t))"])
  fix ing :: PcapIngestor and p :: packet and ps :: "packet list"
  assume a: "sorted (local_times zone (p # ps))
        \<and> (\<exists>t. (\<forall>u \<in> set (local_times zone (p # ps)). t \<le> u)
              \<and> (\<forall>(k, r) \<in> set (flows ing). r_ts_start r \<le> r_ts_end r \<and> r_ts_end r \<le> t))"
  show "sorted (local_times zone ps)
        \<and> (\<exists>t. (\<forall>u \<in> set (local_times zone ps). t \<le> u)
              \<and> (\<forall>(k, r) \<in> set (flows (fst (process_packet zone ing p))).
                    r_ts_start r \<le> r_ts_end r \<and> r_ts_end r \<le> t))"
  proof (cases "parseable p")
    case False
    with a show ?thesis by (simp add: local_times_Cons process_packet_skip)
  next
    case True
    let ?t = "fromtimestamp zone (pkt_time p)"
    from a True obtain t where t: "t \<le> ?t"
      and old: "\<forall>(k, r) \<in> set (flows ing). r_ts_start r \<le> r_ts_end r \<and> r_ts_end r \<le> t"
      by (auto simp: local_times_Cons)
    from a True have "sorted (local_times zone ps)" and "\<forall>u \<in> set (local_times zone ps). ?t \<le> u"
      by (auto simp: local_times_Cons)
    with process_packet_ts [OF t old] show ?thesis by blast
  qed
next
  fix ing :: PcapIngestor and ps :: "packet list" and r :: FlowRecord
  assume "sorted (local_times zone ps)
        \<and> (\<exists>t. (\<forall>u \<in> set (local_times zone ps). t \<le> u)
              \<and> (\<forall>(k, r) \<in> set (flows ing). r_ts_start r \<le> r_ts_end r \<and> r_ts_end r \<le> t))"
    and "r \<in> snd ` set (flows ing)"
  then show "r_ts_start r \<le> r_ts_end r" by auto
next
  have "\<exists>t. \<forall>u \<in> set (local_times zone packets). t \<le> u"
  proof (cases "local_times zone packets")
    case Nil
    then show ?thesis by simp
  next
    case (Cons u us)
    with assms have "\<forall>v \<in> set (local_times zone packets). u \<le> v" by auto
    then show ?thesis ..
  qed
  with assms show "sorted (local_times zone packets)
        \<and> (\<exists>t. (\<forall>u \<in> set (local_times zone packets). t \<le> u)
              \<and> (\<forall>(k, r) \<in> set (flows (ing0\<lparr>flows := []\<rparr>)).
                    r_ts_start r \<le> r_ts_end r \<and> r_ts_end r \<le> t))"
    by simp
qed

lemma ingested_rows_eq:
  "tbl_flows (snd (fst (ingest_pcap zone ing0 st packets streaming))) = tbl_flows st @ new
     \<Longrightarrow> ingested_rows zone ing0 st packets streaming = new"
  by (simp add: ingested_rows_def)

text \<open>
  Claim C4, as the code has it. For every capture whose parseable packets have a
  positive length, in both modes, for every batch-size hint and every time zone, every
  flow row that the run adds has \<open>pkt_count \<ge> 1\<close> and \<open>byte_count \<ge> pkt_count\<close>,
  and its stored payload sample decodes to at most 512 bytes, whatever the order of
  the packet times. On each packet \<open>ts_end\<close> becomes the local time of that packet,
  not the maximum; hence \<open>ts_start \<le> ts_end\<close> holds for the rows of a capture whose
  parseable packets are in non-decreasing order of the local time they are given.
\<close>

theorem ingested_rows_invariants:
  assumes "list_all (\<lambda>p. 1 \<le> pkt_len p) (filter parseable packets)"
  shows "tbl_flows (snd (fst (ingest_pcap zone ing0 st packets streaming)))
           = tbl_flows st @ ingested_rows zone ing0 st packets streaming
    \<and> list_all row_ok (ingested_rows zone ing0 st packets streaming)
    \<and> (sorted (local_times zone packets) \<longrightarrow>
          list_all ts_ordered (ingested_rows zone ing0 st packets streaming))
    \<and> r_ts_end (update zone r t payload n) = fromtimestamp zone t"
proof -
  from ingest_rows_ok [OF assms, of zone ing0 st streaming] obtain new where
    eq: "tbl_flows (snd (fst (ingest_pcap zone ing0 st packets streaming))) = tbl_flows st @ new"
    and ok: "\<forall>m \<in> set new. \<exists>i r. acc_ok r \<and> m = to_flow_model i r" by blast
  have new: "ingested_rows zone ing0 st packets streaming = new"
    using eq by (rule ingested_rows_eq)
  have "list_all row_ok new"
    using ok by (auto simp: list_all_iff to_flow_model_row_ok)
  moreover have "list_all ts_ordered new" if "sorted (local_times zone packets)"
  proof -
    from ingest_rows_ts [OF that, of ing0 st streaming] eq
    have "\<forall>m \<in> set new. \<exists>i r. r_ts_start r \<le> r_ts_end r \<and> m = to_flow_model i r" by auto
    then show ?thesis by (auto simp: list_all_iff to_flow_model_ts)
  qed
  ultimately show ?thesis using eq new by (simp add: update_ts_end)
qed

lemma ingested_in_order:
  "ingested_rows utc default_ingestor empty_store [early_packet, late_packet] True =
     [fresh_flow 1 ''192.168.1.100'' 50000 ''185.220.101.1'' 9001 ''TCP'' 5000000 10000000
        2 120 (Some ''YWJj'')]"
  by code_simp

lemma ingested_out_of_order:
  "ingested_rows utc default_ingestor empty_store [late_packet, early_packet] True =
     [fresh_flow 1 ''192.168.1.100'' 50000 ''185.220.101.1'' 9001 ''TCP'' 10000000 5000000
        2 120 (Some ''YWJj'')]"
  "ingested_rows utc default_ingestor empty_store [late_packet, early_packet] False =
     [fresh_flow 1 ''192.168.1.100'' 50000 ''185.220.101.1'' 9001 ''TCP'' 10000000 5000000
        2 120 (Some ''YWJj'')]"
  by code_simp+

lemma ingested_clock_change:
  "ingested_rows berlin default_ingestor empty_store [before_change, after_change] True =
     [fresh_flow 1 ''192.168.1.100'' 50000 ''185.220.101.1'' 9001 ''TCP''
        1729997999000000 1729994400000000 2 120 None]"
  "ingested_rows berlin default_ingestor empty_store [before_change, after_change] False =
     [fresh_flow 1 ''192.168.1.100'' 50000 ''185.220.101.1'' 9001 ''TCP''
        1729997999000000 1729994400000000 2 120 None]"
  by code_simp+

lemma local_times_fixtures:
  "local_times utc [early_packet, late_packet] = [5000000, 10000000]"
  "local_times utc [late_packet, early_packet] = [10000000, 5000000]"
  "local_times berlin [before_change, after_change] = [1729997999000000, 1729994400000000]"
  "list_all (\<lambda>p. 1 \<le> pkt_len p) (filter parseable [early_packet, late_packet])"
  by code_simp+

text \<open>
  Two packets of one 5-tuple at seconds 5 and 10, ingested in UTC: one row, with
  \<open>ts_start\<close> before \<open>ts_end\<close>.
\<close>

theorem ingested_rows_invariants_witness:
  "list_all (\<lambda>p. 1 \<le> pkt_len p) (filter parseable [early_packet, late_packet])
   \<and> sorted (local_times utc [early_packet, late_packet])
   \<and> list_all row_ok
       (ingested_rows utc default_ingestor empty_store [early_packet, late_packet] True)
   \<and> list_all ts_ordered
       (ingested_rows utc default_ingestor empty_store [early_packet, late_packet] True)"
proof -
  have l: "list_all (\<lambda>p. 1 \<le> pkt_len p) (filter parseable [early_packet, late_packet])"
    by (rule local_times_fixtures(4))
  have s: "sorted (local_times utc [early_packet, late_packet])"
    by (simp add: local_times_fixtures(1))
  from ingested_rows_invariants [OF l, of utc default_ingestor empty_store True] l s
  show ?thesis by blast
qed

text \<open>
  Claim C4 as stated fails. For a capture whose two packets of one 5-tuple carry the
  times 10 s and 5 s in this order, both modes persist a flow with \<open>ts_start\<close> at 10 s
  and \<open>ts_end\<close> at 5 s: the second packet moved \<open>ts_end\<close> back from 10 s to 5 s,
  where the maximum of the two is 10 s. And for a capture whose two packets are in the
  order of their capture times, one second apart across the end of summer time, a
  process in the zone of Berlin persists a flow that starts at 02:59:59 and ends at
  02:00:00.
\<close>

theorem out_of_order_ts_end:
  "\<not> list_all ts_ordered
       (ingested_rows utc default_ingestor empty_store [late_packet, early_packet] True)
   \<and> \<not> list_all ts_ordered
       (ingested_rows utc default_ingestor empty_store [late_packet, early_packet] False)
   \<and> r_ts_end
       (update utc
          (update utc
             (FlowRecord_init utc (FlowKey ''192.168.1.100'' 50000 ''185.220.101.1'' 9001 ''TCP'')
                10)
             10 None 60)
          5 None 60) = 5000000
   \<and> max (fromtimestamp utc 10) (fromtimestamp utc 5) = 10000000
   \<and> sorted (map pkt_time [before_change, after_change])
   \<and> \<not> list_all ts_ordered
       (ingested_rows berlin default_ingestor empty_store [before_change, after_change] True)
   \<and> \<not> list_all ts_ordered
       (ingested_rows berlin default_ingestor empty_store [before_change, after_change] False)"
proof -
  have t: "fromtimestamp utc 5 = 5000000" "fromtimestamp utc 10 = 10000000"
    by code_simp+
  have "sorted (map pkt_time [before_change, after_change])"
    by (simp add: before_change_def after_change_def)
  then show ?thesis
    by (simp add: ingested_out_of_order ingested_clock_change ts_ordered_def fresh_flow_def
          update_ts_end t)
qed

section \<open>The correlation pass\<close>

subsection \<open>Time differences along a sorted list\<close>

lemma time_diff_mono:
  assumes "ts_start a \<le> ts_start b" and "ts_start b \<le> ts_start c"
  shows "time_diff_of a b \<le> time_diff_of a c"
proof -
  have "time_diff_of a b = total_seconds (ts_start b - ts_start a)"
    using assms total_seconds_nonneg [of "ts_start b - ts_start a"]
    by (simp add: time_diff_of_def)
  moreover have "time_diff_of a c = total_seconds (ts_start c - ts_start a)"
    using assms total_seconds_nonneg [of "ts_start c - ts_start a"]
    by (simp add: time_diff_of_def)
  moreover have "total_seconds (ts_start b - ts_start a) \<le> total_seconds (ts_start c - ts_start a)"
    using assms by (intro total_seconds_mono) simp
  ultimately show ?thesis by simp
qed

subsection \<open>The loops as an iteration over the candidate pairs\<close>

lemma fold_pairs_append:
  "fold_pairs st thr (xs @ ys) acc =
     (case fold_pairs st thr xs acc of Inl e \<Rightarrow> Inl e | Inr acc' \<Rightarrow> fold_pairs st thr ys acc')"
  by (induction xs arbitrary: acc) (auto split: sum.splits)

lemma inner_loop_fold:
  assumes "\<forall>b \<in> set rest. ts_start a \<le> ts_start b"
    and "sorted (map ts_start rest)"
    and "\<forall>b \<in> set rest. \<exists>v. is_internal_ip (src_ip b) (Some ips) = Inr v"
  shows "inner_loop eng st ips thr a rest acc =
     fold_pairs st thr
       (map (Pair a) (filter (\<lambda>b. private_src ips b \<and> in_window eng a b) rest)) acc"
  using assms
proof (induction rest arbitrary: acc)
  case Nil
  then show ?case by simp
next
  case (Cons b rest)
  obtain rows n where acc: "acc = (rows, n)" by (cases acc)
  from Cons.prems obtain v where v: "is_internal_ip (src_ip b) (Some ips) = Inr v" by auto
  have IH: "inner_loop eng st ips thr a rest acc' =
     fold_pairs st thr
       (map (Pair a) (filter (\<lambda>b. private_src ips b \<and> in_window eng a b) rest)) acc'" for acc'
    using Cons.prems by (intro Cons.IH) auto
  show ?case
  proof (cases v)
    case False
    with v acc IH show ?thesis by (simp add: private_src_def)
  next
    case True
    show ?thesis
    proof (cases "in_window eng a b")
      case out: False
      have "\<not> in_window eng a c" if "c \<in> set rest" for c
      proof -
        from Cons.prems that have "ts_start a \<le> ts_start b" and "ts_start b \<le> ts_start c"
          by auto
        then have "time_diff_of a b \<le> time_diff_of a c" by (rule time_diff_mono)
        with out show ?thesis by (simp add: in_window_def)
      qed
      then have "filter (\<lambda>b. private_src ips b \<and> in_window eng a b) rest = []"
        by (simp add: filter_empty_conv)
      with out v True acc show ?thesis
        by (simp add: private_src_def in_window_def)
    next
      case inw: True
      with v True acc IH show ?thesis
        by (simp add: private_src_def in_window_def add_pair_def split: sum.splits prod.splits)
    qed
  qed
qed

lemma pairs_of_Cons:
  "pairs_of eng ips (a # rest) =
     (if private_src ips a
      then map (Pair a) (filter (\<lambda>b. private_src ips b \<and> in_window eng a b) rest)
      else []) @ pairs_of eng ips rest"
  by (induction rest) (auto simp: pairs_of_def filter_map comp_def)

lemma outer_loop_fold:
  assumes "sorted (map ts_start fl)"
    and "\<forall>b \<in> set fl. \<exists>v. is_internal_ip (src_ip b) (Some ips) = Inr v"
  shows "outer_loop eng st ips thr fl acc = fold_pairs st thr (pairs_of eng ips fl) acc"
  using assms
proof (induction fl arbitrary: acc)
  case Nil
  then show ?case by (simp add: pairs_of_def)
next
  case (Cons a rest)
  from Cons.prems obtain v where v: "is_internal_ip (src_ip a) (Some ips) = Inr v" by auto
  have IH: "outer_loop eng st ips thr rest acc' = fold_pairs st thr (pairs_of eng ips rest) acc'"
    for acc'
    using Cons.prems by (intro Cons.IH) auto
  show ?case
  proof (cases v)
    case False
    with v IH show ?thesis by (simp add: pairs_of_Cons private_src_def)
  next
    case True
    have "inner_loop eng st ips thr a rest acc =
       fold_pairs st thr
         (map (Pair a) (filter (\<lambda>b. private_src ips b \<and> in_window eng a b) rest)) acc"
      using Cons.prems by (intro inner_loop_fold) auto
    with v True IH show ?thesis
      by (simp add: pairs_of_Cons private_src_def fold_pairs_append split: sum.splits)
  qed
qed

subsection \<open>What the iteration appends\<close>

lemma row_content_new:
  "row_content (new_correlation rows a b w ev) = (fid a, fid b, w, evidence_type ev, ev)"
  by (simp add: row_content_def new_correlation_def)

lemma add_pair_rows:
  assumes "add_pair st thr (rows, n) p = Inr (rows', n')"
  shows "\<exists>new. rows' = rows @ new \<and> n' = n + int (length new)
           \<and> map row_content new = (case pair_row st thr p of None \<Rightarrow> [] | Some c \<Rightarrow> [c])"
  using assms
  by (auto simp: add_pair_def pair_row_def row_content_new split: sum.splits prod.splits if_splits)

lemma fold_pairs_rows:
  assumes "fold_pairs st thr ps (rows, n) = Inr (rows', n')"
  shows "\<exists>new. rows' = rows @ new \<and> n' = n + int (length new)
           \<and> map row_content new = List.map_filter (pair_row st thr) ps"
  using assms
proof (induction ps arbitrary: rows n)
  case Nil
  then show ?case by simp
next
  case (Cons p ps)
  from Cons.prems obtain rows1 n1 where
    step: "add_pair st thr (rows, n) p = Inr (rows1, n1)"
    and rest: "fold_pairs st thr ps (rows1, n1) = Inr (rows', n')"
    by (auto split: sum.splits)
  from add_pair_rows [OF step] obtain new1 where
    a: "rows1 = rows @ new1" "n1 = n + int (length new1)"
    "map row_content new1 = (case pair_row st thr p of None \<Rightarrow> [] | Some c \<Rightarrow> [c])" by blast
  from Cons.IH [OF rest] obtain new2 where
    b: "rows' = rows1 @ new2" "n' = n1 + int (length new2)"
    "map row_content new2 = List.map_filter (pair_row st thr) ps" by blast
  have "rows' = rows @ (new1 @ new2)" and "n' = n + int (length (new1 @ new2))"
    using a b by simp_all
  moreover have "map row_content (new1 @ new2) = List.map_filter (pair_row st thr) (p # ps)"
    using a(3) b(3) by (simp split: option.splits)
  ultimately show ?case by blast
qed

lemma add_pair_keys:
  assumes "add_pair st thr (rows, n) p = Inr (rows', n')"
  shows "\<exists>new. rows' = rows @ new \<and> distinct (map cid new)
           \<and> set (map cid new) \<inter> set (map cid rows) = {}"
  using assms next_id_fresh [of "map cid rows"]
  by (auto simp: add_pair_def new_correlation_def split: sum.splits prod.splits if_splits)

lemma fold_pairs_keys:
  assumes "fold_pairs st thr ps (rows, n) = Inr (rows', n')"
  shows "\<exists>new. rows' = rows @ new \<and> distinct (map cid new)
           \<and> set (map cid new) \<inter> set (map cid rows) = {}"
  using assms
proof (induction ps arbitrary: rows n)
  case Nil
  then show ?case by simp
next
  case (Cons p ps)
  from Cons.prems obtain rows1 n1 where
    step: "add_pair st thr (rows, n) p = Inr (rows1, n1)"
    and rest: "fold_pairs st thr ps (rows1, n1) = Inr (rows', n')"
    by (auto split: sum.splits)
  from add_pair_keys [OF step] obtain new1 where
    a: "rows1 = rows @ new1" "distinct (map cid new1)"
    "set (map cid new1) \<inter> set (map cid rows) = {}" by blast
  from Cons.IH [OF rest] obtain new2 where
    b: "rows' = rows1 @ new2" "distinct (map cid new2)"
    "set (map cid new2) \<inter> set (map cid rows1) = {}" by blast
  have "rows' = rows @ (new1 @ new2)"
    using a(1) b(1) by simp
  moreover have "distinct (map cid (new1 @ new2))"
    using a(1,2) b(2,3) by auto
  moreover have "set (map cid (new1 @ new2)) \<inter> set (map cid rows) = {}"
    using a(1,3) b(3) by auto
  ultimately show ?case by blast
qed

lemma fold_pairs_defined:
  assumes "fold_pairs st thr ps acc = Inr r" and "p \<in> set ps"
  shows "\<exists>w ev. calculate_correlation st (fst p) (snd p) = Inr (w, ev)"
  using assms
proof (induction ps arbitrary: acc)
  case Nil
  then show ?case by simp
next
  case (Cons q ps)
  from Cons.prems(1) obtain acc1 where
    step: "add_pair st thr acc q = Inr acc1" and rest: "fold_pairs st thr ps acc1 = Inr r"
    by (auto split: sum.splits)
  show ?case
  proof (cases "p = q")
    case True
    with step show ?thesis by (auto simp: add_pair_def split: sum.splits)
  next
    case False
    with Cons.prems(2) have "p \<in> set ps" by simp
    with rest show ?thesis by (rule Cons.IH)
  qed
qed

subsection \<open>The weight of a pair\<close>





subsection \<open>What the pass reads\<close>

lemma check_entry_exit_nodes:
  assumes "tbl_tor_nodes st1 = tbl_tor_nodes st2"
  shows "check_entry_exit_pattern st1 a b = check_entry_exit_pattern st2 a b"
  unfolding check_entry_exit_pattern_def assms ..

lemma calculate_correlation_nodes:
  assumes "tbl_tor_nodes st1 = tbl_tor_nodes st2"
  shows "calculate_correlation st1 a b = calculate_correlation st2 a b"
  unfolding calculate_correlation_def check_entry_exit_nodes [OF assms] ..

lemma add_pair_nodes:
  assumes "tbl_tor_nodes st1 = tbl_tor_nodes st2"
  shows "add_pair st1 thr acc p = add_pair st2 thr acc p"
  unfolding add_pair_def calculate_correlation_nodes [OF assms] ..

lemma fold_pairs_nodes:
  assumes "tbl_tor_nodes st1 = tbl_tor_nodes st2"
  shows "fold_pairs st1 thr ps acc = fold_pairs st2 thr ps acc"
  by (induction ps arbitrary: acc) (simp_all add: add_pair_nodes [OF assms] split: sum.splits)

lemma pair_row_nodes:
  assumes "tbl_tor_nodes st1 = tbl_tor_nodes st2"
  shows "pair_row st1 thr p = pair_row st2 thr p"
  unfolding pair_row_def calculate_correlation_nodes [OF assms] ..

lemma pair_weight_nodes:
  assumes "tbl_tor_nodes st1 = tbl_tor_nodes st2"
  shows "pair_weight st1 a b = pair_weight st2 a b"
  unfolding pair_weight_def entry_exit_matched_def check_entry_exit_nodes [OF assms] ..

lemma flows_only:
  "tbl_flows st1 = tbl_flows st2 \<Longrightarrow> get_internal_ips st1 = get_internal_ips st2"
  "tbl_flows st1 = tbl_flows st2 \<Longrightarrow> tor_flows_of st1 = tor_flows_of st2"
  by (simp_all add: get_internal_ips_def tor_flows_of_def)

lemma is_internal_known:
  assumes "is_internal_ip ip None = Inr v"
  shows "\<exists>v'. is_internal_ip ip (Some known) = Inr v'"
  using assms by (auto simp: is_internal_ip_def Let_def split: if_splits sum.splits)

lemma collect_internal_defined:
  assumes "collect_internal xs acc = Inr ips" and "x \<in> set xs"
  shows "\<exists>v. is_internal_ip x None = Inr v"
  using assms
  by (induction xs arbitrary: acc) (auto split: sum.splits if_splits)

lemma get_internal_ips_defined:
  assumes "get_internal_ips st = Inr ips" and "f \<in> set (tbl_flows st)"
  shows "\<exists>v. is_internal_ip (src_ip f) (Some ips) = Inr v"
proof -
  from assms(2) have "src_ip f \<in> set (remdups (map src_ip (tbl_flows st)))" by simp
  with assms(1) obtain v where "is_internal_ip (src_ip f) None = Inr v"
    unfolding get_internal_ips_def by (blast dest: collect_internal_defined)
  then show ?thesis by (rule is_internal_known)
qed

lemma tor_flows_sorted: "sorted (map ts_start (tor_flows_of st))"
  by (simp add: tor_flows_of_def)

lemma tor_flows_subset: "set (tor_flows_of st) \<subseteq> set (tbl_flows st)"
  by (auto simp: tor_flows_of_def)

subsection \<open>The pass\<close>

lemma session_close_commit:
  "session_close ((get_session st)\<lparr>tbl_correlations := rows\<rparr>) = st\<lparr>tbl_correlations := rows\<rparr>"
  by (simp add: session_close_def get_session_def)

lemma correlate_flows_fold:
  "correlate_flows eng st thr =
     (case get_internal_ips st of
        Inl e \<Rightarrow> (st, Inl e)
      | Inr ips \<Rightarrow>
          (case fold_pairs st thr (candidate_pairs eng st) (tbl_correlations st, 0) of
             Inl e \<Rightarrow> (st, Inl e)
           | Inr (rows, n) \<Rightarrow> (st\<lparr>tbl_correlations := rows\<rparr>, Inr n)))"
proof -
  have g: "get_internal_ips (get_session st) = get_internal_ips st"
    and t: "tor_flows_of (get_session st) = tor_flows_of st"
    by (rule flows_only [OF tables_get_session(1)])+
  show ?thesis
  proof (cases "get_internal_ips st")
    case (Inl e)
    then show ?thesis
      by (simp add: correlate_flows_def Let_def g session_close_get_session)
  next
    case (Inr ips)
    have pre: "\<forall>b \<in> set (tor_flows_of st). \<exists>v. is_internal_ip (src_ip b) (Some ips) = Inr v"
      using get_internal_ips_defined [OF Inr] tor_flows_subset [of st] by blast
    have loop: "outer_loop eng (get_session st) ips thr (tor_flows_of st) acc =
        fold_pairs st thr (candidate_pairs eng st) acc" for acc
      using outer_loop_fold [OF tor_flows_sorted pre, of eng "get_session st" thr acc]
        fold_pairs_nodes [OF tables_get_session(2), of st] Inr
      by (simp add: candidate_pairs_def)
    show ?thesis
      by (simp add: correlate_flows_def Let_def g t Inr loop tables_get_session(3)
            session_close_get_session session_close_commit split: sum.splits prod.splits)
  qed
qed

lemma correlate_flows_success:
  assumes "correlate_flows eng st thr = (st', Inr n)"
  shows "\<exists>new. st' = st\<lparr>tbl_correlations := tbl_correlations st @ new\<rparr>
    \<and> n = int (length new)
    \<and> map row_content new = List.map_filter (pair_row st thr) (candidate_pairs eng st)
    \<and> (\<forall>p \<in> set (candidate_pairs eng st).
          \<exists>w ev. calculate_correlation st (fst p) (snd p) = Inr (w, ev))
    \<and> fold_pairs st thr (candidate_pairs eng st) (tbl_correlations st, 0)
        = Inr (tbl_correlations st @ new, n)"
proof -
  from assms obtain ips rows where
    ips: "get_internal_ips st = Inr ips"
    and run: "fold_pairs st thr (candidate_pairs eng st) (tbl_correlations st, 0) = Inr (rows, n)"
    and st': "st' = st\<lparr>tbl_correlations := rows\<rparr>"
    by (auto simp: correlate_flows_fold split: sum.splits prod.splits)
  from fold_pairs_rows [OF run] obtain new where
    new: "rows = tbl_correlations st @ new" "n = 0 + int (length new)"
    "map row_content new = List.map_filter (pair_row st thr) (candidate_pairs eng st)" by blast
  have "\<forall>p \<in> set (candidate_pairs eng st).
          \<exists>w ev. calculate_correlation st (fst p) (snd p) = Inr (w, ev)"
    using fold_pairs_defined [OF run] by blast
  with new st' run show ?thesis by auto
qed

lemma candidate_pairs_correlations:
  "candidate_pairs eng (st\<lparr>tbl_correlations := rows\<rparr>) = candidate_pairs eng st"
proof -
  have "get_internal_ips (st\<lparr>tbl_correlations := rows\<rparr>) = get_internal_ips st"
    and "tor_flows_of (st\<lparr>tbl_correlations := rows\<rparr>) = tor_flows_of st"
    by (simp_all add: get_internal_ips_def tor_flows_of_def)
  then show ?thesis by (simp only: candidate_pairs_def)
qed

lemma pair_pass_1:
  "correlate_flows default_engine pair_store default_min_weight = (pair_store_1, Inr 1)"
  by code_simp

lemma pair_pass_2:
  "correlate_flows default_engine pair_store_1 default_min_weight = (pair_store_2, Inr 1)"
  by code_simp

lemma zero_bytes_raise:
  "calculate_correlation empty_store (zero_byte_flow 1) (zero_byte_flow 2) = Inl ZeroDivisionError"
  by code_simp









section \<open>Running the correlation pass twice\<close>

text \<open>
  Claim C2, as the code has it. A pass never removes or rewrites a correlation row: it
  appends the rows it finds to those already stored. A second pass with the same
  window and threshold over the store left by a first, completed pass completes too,
  returns the same count and appends rows with the same flow ids, weights, types and
  evidence again, under primary keys that differ from one another and from every key
  in the table; flows and relay nodes are not touched.
\<close>

theorem second_pass_appends_again:
  assumes "correlate_flows eng st thr = (st1, Inr n)"
  shows "\<exists>st2. correlate_flows eng st1 thr = (st2, Inr n)
    \<and> tbl_correlations st1 = tbl_correlations st @ new_correlations st st1
    \<and> tbl_correlations st2 = tbl_correlations st1 @ new_correlations st1 st2
    \<and> map row_content (new_correlations st1 st2) = map row_content (new_correlations st st1)
    \<and> int (length (new_correlations st st1)) = n
    \<and> int (length (new_correlations st1 st2)) = n
    \<and> distinct (map cid (new_correlations st1 st2))
    \<and> set (map cid (new_correlations st1 st2)) \<inter> set (map cid (tbl_correlations st1)) = {}
    \<and> tbl_flows st2 = tbl_flows st \<and> tbl_tor_nodes st2 = tbl_tor_nodes st"
proof -
  from correlate_flows_success [OF assms] obtain new1 where
    st1: "st1 = st\<lparr>tbl_correlations := tbl_correlations st @ new1\<rparr>"
    and n1: "n = int (length new1)"
    and rows1: "map row_content new1 = List.map_filter (pair_row st thr) (candidate_pairs eng st)"
    and run1: "fold_pairs st thr (candidate_pairs eng st) (tbl_correlations st, 0)
        = Inr (tbl_correlations st @ new1, n)"
    by blast
  have nodes: "tbl_tor_nodes st1 = tbl_tor_nodes st" and fl: "tbl_flows st1 = tbl_flows st"
    by (simp_all add: st1)
  have cp: "candidate_pairs eng st1 = candidate_pairs eng st"
    unfolding st1 by (rule candidate_pairs_correlations)
  have ips: "get_internal_ips st1 = get_internal_ips st"
    by (rule flows_only(1) [OF fl])
  from assms obtain ips0 where ips0: "get_internal_ips st = Inr ips0"
    by (auto simp: correlate_flows_fold split: sum.splits)
  have "\<exists>r. fold_pairs st thr ps acc = Inr r"
    if "\<forall>p \<in> set ps. \<exists>w ev. calculate_correlation st (fst p) (snd p) = Inr (w, ev)"
    for ps acc
    using that
  proof (induction ps arbitrary: acc)
    case Nil
    then show ?case by simp
  next
    case (Cons p ps)
    then obtain w ev where "calculate_correlation st (fst p) (snd p) = Inr (w, ev)" by auto
    then have "\<exists>acc1. add_pair st thr acc p = Inr acc1"
      by (simp add: add_pair_def)
    then obtain acc1 where "add_pair st thr acc p = Inr acc1" ..
    with Cons show ?case by simp
  qed
  moreover have "\<forall>p \<in> set (candidate_pairs eng st).
      \<exists>w ev. calculate_correlation st (fst p) (snd p) = Inr (w, ev)"
    using fold_pairs_defined [OF run1] by blast
  ultimately obtain rows2 n2 where
    run2: "fold_pairs st thr (candidate_pairs eng st) (tbl_correlations st1, 0) = Inr (rows2, n2)"
    by (metis surj_pair)
  from fold_pairs_rows [OF run2] obtain new2 where
    new2: "rows2 = tbl_correlations st1 @ new2" "n2 = 0 + int (length new2)"
    "map row_content new2 = List.map_filter (pair_row st thr) (candidate_pairs eng st)" by blast
  have len: "length new2 = length new1"
    using new2(3) rows1 by (metis length_map)
  from fold_pairs_keys [OF run2] new2(1) have keys: "distinct (map cid new2)"
    "set (map cid new2) \<inter> set (map cid (tbl_correlations st1)) = {}"
    by auto
  let ?st2 = "st1\<lparr>tbl_correlations := rows2\<rparr>"
  have "correlate_flows eng st1 thr = (?st2, Inr n)"
    using run2 new2(2) len n1
    by (simp add: correlate_flows_fold ips ips0 cp fold_pairs_nodes [OF nodes])
  moreover have "new_correlations st st1 = new1" and "new_correlations st1 ?st2 = new2"
    by (simp_all add: new_correlations_def st1 new2(1))
  moreover have "tbl_correlations st1 = tbl_correlations st @ new1"
    by (simp add: st1)
  ultimately show ?thesis
    using new2 rows1 n1 len nodes fl keys by auto
qed

theorem second_pass_appends_again_witness:
  "correlate_flows default_engine pair_store default_min_weight = (pair_store_1, Inr 1)
   \<and> correlate_flows default_engine pair_store_1 default_min_weight = (pair_store_2, Inr 1)
   \<and> map row_content (new_correlations pair_store_1 pair_store_2)
       = map row_content (new_correlations pair_store pair_store_1)"
proof -
  from second_pass_appends_again [OF pair_pass_1] obtain st2 where
    "correlate_flows default_engine pair_store_1 default_min_weight = (st2, Inr 1)"
    and "map row_content (new_correlations pair_store_1 st2)
       = map row_content (new_correlations pair_store pair_store_1)" by blast
  with pair_pass_1 pair_pass_2 show ?thesis by simp
qed

text \<open>
  Claim C2 as stated fails: after the first pass over the two flows of scenario 2 the
  table holds one row, after the second pass it holds two rows that differ in their
  primary key only.
\<close>

theorem second_pass_duplicates:
  "correlate_flows default_engine pair_store default_min_weight = (pair_store_1, Inr 1)
   \<and> correlate_flows default_engine pair_store_1 default_min_weight = (pair_store_2, Inr 1)
   \<and> tbl_correlations pair_store_1 = [pair_row_1]
   \<and> tbl_correlations pair_store_2 = [pair_row_1, pair_row_1\<lparr>cid := 2\<rparr>]
   \<and> row_content (pair_row_1\<lparr>cid := 2\<rparr>) = row_content pair_row_1
   \<and> tbl_correlations pair_store_2 \<noteq> tbl_correlations pair_store_1"
proof -
  have "tbl_correlations pair_store_1 = [pair_row_1]"
    and "tbl_correlations pair_store_2 = [pair_row_1, pair_row_1\<lparr>cid := 2\<rparr>]"
    by (simp_all add: pair_store_1_def pair_store_2_def)
  moreover have "row_content (pair_row_1\<lparr>cid := 2\<rparr>) = row_content pair_row_1"
    by (simp add: row_content_def)
  ultimately show ?thesis
    using pair_pass_1 pair_pass_2 by simp
qed

section \<open>Counting the rows of a run\<close>

text \<open>
  With a single flush at the end a run persists one row per distinct 5-tuple, and the
  packet counts of its rows add up to the number of parseable packets. That is the
  case in eager mode, and in streaming mode as long as the number of distinct 5-tuples
  stays below the batch-size hint.
\<close>

lemma map_fst_dict_set:
  "map fst (dict_set k v fl) = (if k \<in> set (map fst fl) then map fst fl else map fst fl @ [k])"
  by (induction fl) (auto simp: rev_image_eqI)

lemma sum_dict_set:
  fixes f :: "'v \<Rightarrow> int"
  shows "sum_list (map (\<lambda>kr. f (snd kr)) (dict_set k v fl))
         + (case map_of fl k of None \<Rightarrow> 0 | Some r0 \<Rightarrow> f r0)
       = sum_list (map (\<lambda>kr. f (snd kr)) fl) + f v"
  by (induction fl) auto

lemma update_pkt_count: "r_pkt_count (update zone r t payload n) = r_pkt_count r + 1"
  by (simp add: update_def Let_def split: option.split)

lemma parseable_keys_Cons:
  "parseable_keys (p # ps) =
     (case packet_key p of None \<Rightarrow> parseable_keys ps | Some k \<Rightarrow> k # parseable_keys ps)"
  by (simp add: parseable_keys_def split: option.split)

lemma counted_step:
  assumes "counted fl ks"
  shows "counted
    (dict_set k
       (update zone (case map_of fl k of None \<Rightarrow> FlowRecord_init zone k t | Some r0 \<Rightarrow> r0) t payload n) fl)
    (ks @ [k])"
proof -
  let ?r = "case map_of fl k of None \<Rightarrow> FlowRecord_init zone k t | Some r0 \<Rightarrow> r0"
  let ?v = "update zone ?r t payload n"
  from assms have d: "distinct (map fst fl)" and s: "set (map fst fl) = set ks"
    and c: "sum_list (map (\<lambda>kr. r_pkt_count (snd kr)) fl) = int (length ks)"
    by (simp_all add: counted_def)
  have "distinct (map fst (dict_set k ?v fl))"
    using d by (simp add: map_fst_dict_set)
  moreover have "set (map fst (dict_set k ?v fl)) = set (ks @ [k])"
    using s by (auto simp: map_fst_dict_set)
  moreover have "sum_list (map (\<lambda>kr. r_pkt_count (snd kr)) (dict_set k ?v fl))
      = int (length (ks @ [k]))"
    using sum_dict_set [of r_pkt_count k ?v fl] c
    by (cases "map_of fl k") (simp_all add: update_pkt_count FlowRecord_init_def)
  ultimately show ?thesis by (simp add: counted_def)
qed

lemma process_packet_counted:
  assumes "counted (flows ing) ks"
  shows "counted (flows (fst (process_packet zone ing p))) (ks @ parseable_keys [p])"
proof (cases "packet_key p")
  case None
  with assms show ?thesis by (simp add: process_packet_eq parseable_keys_def)
next
  case (Some k)
  with counted_step [where k = k and zone = zone and t = "pkt_time p" and payload = "pkt_raw p"
        and n = "pkt_len p", OF assms]
  show ?thesis
    by (simp add: process_packet_eq parseable_keys_def)
qed

lemma parseable_keys_append1:
  "parseable_keys [p] @ parseable_keys ps = parseable_keys (p # ps)"
  by (simp add: parseable_keys_def split: option.split)

lemma eager_loop_counted:
  assumes "counted (flows ing) ks"
  shows "counted (flows (eager_loop zone ing ps)) (ks @ parseable_keys ps)"
  using assms
proof (induction ps arbitrary: ing ks)
  case Nil
  then show ?case by (simp add: parseable_keys_def)
next
  case (Cons p ps)
  from Cons.IH [OF process_packet_counted [where p = p and zone = zone, OF Cons.prems]]
  show ?case by (simp add: parseable_keys_append1)
qed

lemma process_packet_batch_size: "batch_size (fst (process_packet zone ing p)) = batch_size ing"
  by (simp add: process_packet_eq split: option.split)

lemma counted_length: "counted fl ks \<Longrightarrow> length fl = card (set ks)"
  by (metis counted_def distinct_card length_map)

lemma stream_loop_no_flush:
  assumes "counted (flows ing) ks"
    and "int (card (set (ks @ parseable_keys ps))) < batch_size ing"
  shows "stream_loop zone ing st ps = (eager_loop zone ing ps, st)"
  using assms
proof (induction ps arbitrary: ing ks)
  case Nil
  then show ?case by simp
next
  case (Cons p ps)
  let ?ing = "fst (process_packet zone ing p)"
  have c: "counted (flows ?ing) (ks @ parseable_keys [p])"
    by (rule process_packet_counted [OF Cons.prems(1)])
  have all: "(ks @ parseable_keys [p]) @ parseable_keys ps = ks @ parseable_keys (p # ps)"
    by (simp add: parseable_keys_append1)
  have "card (set (ks @ parseable_keys [p])) \<le> card (set (ks @ parseable_keys (p # ps)))"
    by (rule card_mono) (auto simp: all [symmetric])
  with counted_length [OF c] Cons.prems(2)
  have small: "\<not> int (length (flows ?ing)) \<ge> batch_size ?ing"
    by (simp add: process_packet_batch_size)
  have "stream_loop zone ?ing st ps = (eager_loop zone ?ing ps, st)"
    using Cons.prems(2) by (intro Cons.IH [OF c]) (simp only: all process_packet_batch_size)
  with small show ?case by (simp add: Let_def)
qed

lemma bulk_save_counts:
  "\<exists>new. bulk_save rows rs = rows @ new \<and> map pkt_count new = map r_pkt_count rs"
proof (induction rs arbitrary: rows)
  case Nil
  then show ?case by simp
next
  case (Cons r rest)
  let ?m = "to_flow_model (next_id (map fid rows)) r"
  have pc: "pkt_count ?m = r_pkt_count r"
    by (cases "key r") (simp add: to_flow_model_def)
  from Cons [of "rows @ [?m]"] obtain new where
    "bulk_save (rows @ [?m]) rest = (rows @ [?m]) @ new"
    and "map pkt_count new = map r_pkt_count rest" by blast
  with pc have "bulk_save rows (r # rest) = rows @ (?m # new)"
    and "map pkt_count (?m # new) = map r_pkt_count (r # rest)"
    by simp_all
  then show ?case by blast
qed

lemma flush_flows_counts:
  "\<exists>new. tbl_flows (flush_flows ing st) = tbl_flows st @ new
     \<and> map pkt_count new = map (\<lambda>kr. r_pkt_count (snd kr)) (flows ing)"
proof (cases "flows ing = []")
  case True
  then show ?thesis by (simp add: flush_flows_def)
next
  case False
  from bulk_save_counts [of "tbl_flows st" "map snd (flows ing)"] obtain new where
    "bulk_save (tbl_flows st) (map snd (flows ing)) = tbl_flows st @ new"
    and "map pkt_count new = map r_pkt_count (map snd (flows ing))" by blast
  with False show ?thesis
    by (simp add: flush_flows_def Let_def session_close_def tables_get_session comp_def)
qed

lemma single_flush_counts:
  assumes "snd (fst (ingest_pcap zone ing0 st packets streaming))
      = flush_flows (eager_loop zone (ing0\<lparr>flows := []\<rparr>) packets) st"
  shows "length (ingested_rows zone ing0 st packets streaming) = card (set (parseable_keys packets))
    \<and> sum_list (map pkt_count (ingested_rows zone ing0 st packets streaming))
        = int (length (parseable_keys packets))"
proof -
  let ?ing = "eager_loop zone (ing0\<lparr>flows := []\<rparr>) packets"
  have "counted (flows (ing0\<lparr>flows := []\<rparr>)) []"
    by (simp add: counted_def)
  from eager_loop_counted [where ps = packets and zone = zone, OF this]
  have c: "counted (flows ?ing) (parseable_keys packets)" by simp
  from flush_flows_counts [of ?ing st] obtain new where
    eq: "tbl_flows (flush_flows ?ing st) = tbl_flows st @ new"
    and pc: "map pkt_count new = map (\<lambda>kr. r_pkt_count (snd kr)) (flows ?ing)" by blast
  have new: "ingested_rows zone ing0 st packets streaming = new"
    using eq assms by (simp add: ingested_rows_def)
  have "length new = length (flows ?ing)"
    using pc by (metis length_map)
  with counted_length [OF c] have "length new = card (set (parseable_keys packets))" by simp
  moreover have "sum_list (map pkt_count new) = int (length (parseable_keys packets))"
    using c pc by (simp add: counted_def)
  ultimately show ?thesis using new by simp
qed

lemma eager_ingest_counts:
  "length (ingested_rows zone ing0 st packets False) = card (set (parseable_keys packets))
    \<and> sum_list (map pkt_count (ingested_rows zone ing0 st packets False))
        = int (length (parseable_keys packets))"
  by (rule single_flush_counts) (simp add: ingest_pcap_def Let_def)

lemma streaming_ingest_counts_large_batch:
  assumes "int (card (set (parseable_keys packets))) < batch_size ing0"
  shows "length (ingested_rows zone ing0 st packets True) = card (set (parseable_keys packets))
    \<and> sum_list (map pkt_count (ingested_rows zone ing0 st packets True))
        = int (length (parseable_keys packets))"
proof (rule single_flush_counts)
  have "counted (flows (ing0\<lparr>flows := []\<rparr>)) []"
    by (simp add: counted_def)
  from stream_loop_no_flush [where ps = packets and st = st and zone = zone, OF this] assms
  show "snd (fst (ingest_pcap zone ing0 st packets True))
      = flush_flows (eager_loop zone (ing0\<lparr>flows := []\<rparr>) packets) st"
    by (simp add: ingest_pcap_def Let_def)
qed

section \<open>Where the private-address check can raise\<close>

lemma is_internal_ip_raises_only_172:
  assumes "is_internal_ip ip known = Inl e"
  shows "prefix ''172.'' ip"
  using assms by (auto simp: is_internal_ip_def Let_def split: if_splits)

end
